theory Spec2Isabelle
  imports Main "HOL-Library.Sublist" "HOL-Library.AList"
begin

section \<open>Mermaid export: \<open>compose/graph_mermaid.go\<close>\<close>

subsection \<open>Data model\<close>

text \<open>
  \<open>GraphInfo\<close> is declared in another file of package \<open>compose\<close>; the generator reads four of its
  fields, all of them Go maps: \<open>Nodes\<close> (node key to node info, of which only
  \<open>Component\<close> is read), \<open>Edges\<close> and \<open>DataEdges\<close> (source key to list of target
  keys) and \<open>Branches\<close> (source key to list of branches; of a branch only the key set
  of \<open>GetEndNode()\<close> is read).

  A Go map is given here as the association list of its entries in the order in which
  \<open>range\<close> visits them: the order is chosen by the runtime, so it is part of the input.
  A well-formed map has pairwise different keys (\<open>wf_GraphInfo\<close>).
\<close>

record GraphNodeInfo =
  Component :: string

record GraphBranch =
  endNodes :: "(string \<times> bool) list"

record GraphInfo =
  Nodes :: "(string \<times> GraphNodeInfo) list"
  Edges :: "(string \<times> string list) list"
  DataEdges :: "(string \<times> string list) list"
  Branches :: "(string \<times> GraphBranch list) list"

definition wf_GraphInfo :: "GraphInfo \<Rightarrow> bool" where
  "wf_GraphInfo info \<longleftrightarrow>
     distinct (map fst (Nodes info)) \<and> distinct (map fst (Edges info)) \<and>
     distinct (map fst (DataEdges info)) \<and> distinct (map fst (Branches info)) \<and>
     list_all (\<lambda>(k, bs). list_all (\<lambda>b. distinct (map fst (endNodes b))) bs) (Branches info)"

text \<open>
  The buffer is the list of the \<open>WriteString\<close> calls made so far. \<open>Raw\<close> is a literal
  write; the other three constructors are the three \<open>fmt.Sprintf\<close> formats, with the
  arguments of the call. \<open>render\<close> gives the bytes written by one call, and
  \<open>buf.String()\<close> is the concatenation.
\<close>

datatype line =
    Raw string
  | NodeLine string string string
  | Solid string string
  | Dashed string string

fun render :: "line \<Rightarrow> string" where
  "render (Raw s) = s"
| "render (NodeLine ident nodeKey component) =
     ''    '' @ ident @ [CHR ''['', CHR 0x22] @ nodeKey @ '': '' @ component @ [CHR 0x22, CHR '']'', CHR ''\<newline>'']"
| "render (Solid fromID toID) = ''    '' @ fromID @ '' --> '' @ toID @ ''\<newline>''"
| "render (Dashed fromID toID) = ''    '' @ fromID @ '' -.-> '' @ toID @ ''\<newline>''"

definition String :: "line list \<Rightarrow> string" where
  "String buf = concat (map render buf)"

type_synonym gen_state = "line list \<times> (string \<Rightarrow> bool)"

subsection \<open>\<open>GenerateMermaidFlowchart\<close> of \<open>compose/graph_mermaid.go\<close>\<close>

text \<open>
  \<open>strings.NewReplacer\<close> with one-byte old strings replaces byte by byte; the table is
  the argument list of the call.
\<close>

definition replacerTable :: "(char \<times> char) list" where
  "replacerTable =
     [(CHR ''-'', CHR ''_''), (CHR ''.'', CHR ''_''), (CHR '' '', CHR ''_''),
      (CHR ''('', CHR ''_''), (CHR '')'', CHR ''_''), (CHR ''['', CHR ''_''),
      (CHR '']'', CHR ''_''), (CHR ''{'', CHR ''_''), (CHR ''}'', CHR ''_''),
      (CHR ''<'', CHR ''_''), (CHR ''>'', CHR ''_''), (CHR ''/'', CHR ''_''),
      (CHR 0x5C, CHR ''_''), (CHR ''|'', CHR ''_''), (CHR 0x22, CHR ''_''),
      (CHR '':'', CHR ''_'')]"

definition escapeID :: "string \<Rightarrow> string" where
  "escapeID s = map (\<lambda>c. case map_of replacerTable c of Some r \<Rightarrow> r | None \<Rightarrow> c) s"

definition edgeKey :: "string \<Rightarrow> string \<Rightarrow> string" where
  "edgeKey from to = from @ ''-->'' @ to"

text \<open>The first loop over \<open>info.Nodes\<close>, then the two explicit entries.\<close>

definition idMap :: "GraphInfo \<Rightarrow> (string \<rightharpoonup> string)" where
  "idMap info =
     (fold (\<lambda>(nodeKey, nodeInfo) m. m(nodeKey \<mapsto> ''N_'' @ escapeID nodeKey)) (Nodes info) Map.empty)
       (''start'' \<mapsto> ''StartNode'', ''end'' \<mapsto> ''EndNode'')"

text \<open>The second loop over \<open>info.Nodes\<close>: one node line per entry.\<close>

definition nodeLine :: "(string \<rightharpoonup> string) \<Rightarrow> string \<times> GraphNodeInfo \<Rightarrow> line" where
  "nodeLine m entry =
     (case entry of (nodeKey, nodeInfo) \<Rightarrow>
        NodeLine (case m nodeKey of Some ident \<Rightarrow> ident | None \<Rightarrow> [])
                 nodeKey
                 (if Component nodeInfo = [] then ''Node'' else Component nodeInfo))"

text \<open>
  The body of the inner loop of the control-flow section (and of the branch section):
  look the target up, skip it when unknown, write a solid arrow unless its key was seen.
\<close>

fun solidStep :: "(string \<rightharpoonup> string) \<Rightarrow> string \<Rightarrow> string \<Rightarrow> gen_state \<Rightarrow> gen_state" where
  "solidStep m fromID to (buf, seenEdges) =
     (case m to of
        None \<Rightarrow> (buf, seenEdges)
      | Some toID \<Rightarrow>
          (if \<not> seenEdges (edgeKey fromID toID)
           then (buf @ [Solid fromID toID], seenEdges(edgeKey fromID toID := True))
           else (buf, seenEdges)))"

text \<open>The body of the inner loop of the data-flow section.\<close>

fun dashedStep :: "(string \<rightharpoonup> string) \<Rightarrow> string \<Rightarrow> string \<Rightarrow> gen_state \<Rightarrow> gen_state" where
  "dashedStep m fromID to (buf, seenEdges) =
     (case m to of
        None \<Rightarrow> (buf, seenEdges)
      | Some toID \<Rightarrow>
          (if seenEdges (edgeKey fromID toID)
           then (buf, seenEdges)
           else (buf @ [Dashed fromID toID], seenEdges(edgeKey fromID toID := True))))"

definition controlEdges :: "(string \<rightharpoonup> string) \<Rightarrow> (string \<times> string list) list \<Rightarrow> gen_state \<Rightarrow> gen_state" where
  "controlEdges m edges st =
     fold (\<lambda>(from, toList) st.
             case m from of None \<Rightarrow> st | Some fromID \<Rightarrow> fold (solidStep m fromID) toList st)
          edges st"

definition dataEdges :: "(string \<rightharpoonup> string) \<Rightarrow> (string \<times> string list) list \<Rightarrow> gen_state \<Rightarrow> gen_state" where
  "dataEdges m edges st =
     fold (\<lambda>(from, toList) st.
             case m from of None \<Rightarrow> st | Some fromID \<Rightarrow> fold (dashedStep m fromID) toList st)
          edges st"

text \<open>
  The branch section. A source with an empty branch list or an unknown key is skipped; a
  branch without end nodes is skipped (the warnings go to the logger, which is not part
  of the result); otherwise every end node gets the solid-arrow step.
\<close>

definition branchEdges :: "(string \<rightharpoonup> string) \<Rightarrow> (string \<times> GraphBranch list) list \<Rightarrow> gen_state \<Rightarrow> gen_state" where
  "branchEdges m branches st =
     fold (\<lambda>(fromNode, branchList) st.
             if length branchList = 0 then st
             else case m fromNode of
                    None \<Rightarrow> st
                  | Some fromID \<Rightarrow>
                      fold (\<lambda>branch st.
                              if length (endNodes branch) = 0 then st
                              else fold (solidStep m fromID) (map fst (endNodes branch)) st)
                           branchList st)
          branches st"

definition writes :: "GraphInfo \<Rightarrow> line list" where
  "writes info =
     (let m = idMap info;
          buf = [Raw ''graph TD\<newline>'', Raw ''    StartNode([Start])\<newline>'', Raw ''    EndNode([End])\<newline>'']
                  @ map (nodeLine m) (Nodes info) @ [Raw ''\<newline>''];
          st = controlEdges m (Edges info) (buf, \<lambda>key. False);
          st = dataEdges m (DataEdges info) st;
          st = branchEdges m (Branches info) st
      in fst st)"

definition GenerateMermaidFlowchart :: "GraphInfo \<Rightarrow> string" where
  "GenerateMermaidFlowchart info = String (writes info)"

subsection \<open>\<open>GenerateMermaidFlowchart\<close> of the second generator file (the one with output formats)\<close>

text \<open>
  The repository holds a second file of package \<open>compose\<close> with a function of the same
  name (the version whose \<open>DrawMermaid\<close> also writes PNG and SVG). It is translated
  on its own, closure by closure, with the suffix \<open>_v2\<close>.
\<close>

definition replacerTable_v2 :: "(char \<times> char) list" where
  "replacerTable_v2 =
     [(CHR ''-'', CHR ''_''), (CHR ''.'', CHR ''_''), (CHR '' '', CHR ''_''),
      (CHR ''('', CHR ''_''), (CHR '')'', CHR ''_''), (CHR ''['', CHR ''_''),
      (CHR '']'', CHR ''_''), (CHR ''{'', CHR ''_''), (CHR ''}'', CHR ''_''),
      (CHR ''<'', CHR ''_''), (CHR ''>'', CHR ''_''), (CHR ''/'', CHR ''_''),
      (CHR 0x5C, CHR ''_''), (CHR ''|'', CHR ''_''), (CHR 0x22, CHR ''_''),
      (CHR '':'', CHR ''_'')]"

definition escapeID_v2 :: "string \<Rightarrow> string" where
  "escapeID_v2 s = map (\<lambda>c. case map_of replacerTable_v2 c of Some r \<Rightarrow> r | None \<Rightarrow> c) s"

definition edgeKey_v2 :: "string \<Rightarrow> string \<Rightarrow> string" where
  "edgeKey_v2 from to = from @ ''-->'' @ to"

definition idMap_v2 :: "GraphInfo \<Rightarrow> (string \<rightharpoonup> string)" where
  "idMap_v2 info =
     (fold (\<lambda>(nodeKey, nodeInfo) m. m(nodeKey \<mapsto> ''N_'' @ escapeID_v2 nodeKey)) (Nodes info) Map.empty)
       (''start'' \<mapsto> ''StartNode'', ''end'' \<mapsto> ''EndNode'')"

definition nodeLine_v2 :: "(string \<rightharpoonup> string) \<Rightarrow> string \<times> GraphNodeInfo \<Rightarrow> line" where
  "nodeLine_v2 m entry =
     (case entry of (nodeKey, nodeInfo) \<Rightarrow>
        NodeLine (case m nodeKey of Some ident \<Rightarrow> ident | None \<Rightarrow> [])
                 nodeKey
                 (if Component nodeInfo = [] then ''Node'' else Component nodeInfo))"

fun solidStep_v2 :: "(string \<rightharpoonup> string) \<Rightarrow> string \<Rightarrow> string \<Rightarrow> gen_state \<Rightarrow> gen_state" where
  "solidStep_v2 m fromID to (buf, seenEdges) =
     (case m to of
        None \<Rightarrow> (buf, seenEdges)
      | Some toID \<Rightarrow>
          (if \<not> seenEdges (edgeKey_v2 fromID toID)
           then (buf @ [Solid fromID toID], seenEdges(edgeKey_v2 fromID toID := True))
           else (buf, seenEdges)))"

fun dashedStep_v2 :: "(string \<rightharpoonup> string) \<Rightarrow> string \<Rightarrow> string \<Rightarrow> gen_state \<Rightarrow> gen_state" where
  "dashedStep_v2 m fromID to (buf, seenEdges) =
     (case m to of
        None \<Rightarrow> (buf, seenEdges)
      | Some toID \<Rightarrow>
          (if seenEdges (edgeKey_v2 fromID toID)
           then (buf, seenEdges)
           else (buf @ [Dashed fromID toID], seenEdges(edgeKey_v2 fromID toID := True))))"

definition controlEdges_v2 :: "(string \<rightharpoonup> string) \<Rightarrow> (string \<times> string list) list \<Rightarrow> gen_state \<Rightarrow> gen_state" where
  "controlEdges_v2 m edges st =
     fold (\<lambda>(from, toList) st.
             case m from of None \<Rightarrow> st | Some fromID \<Rightarrow> fold (solidStep_v2 m fromID) toList st)
          edges st"

definition dataEdges_v2 :: "(string \<rightharpoonup> string) \<Rightarrow> (string \<times> string list) list \<Rightarrow> gen_state \<Rightarrow> gen_state" where
  "dataEdges_v2 m edges st =
     fold (\<lambda>(from, toList) st.
             case m from of None \<Rightarrow> st | Some fromID \<Rightarrow> fold (dashedStep_v2 m fromID) toList st)
          edges st"

definition branchEdges_v2 :: "(string \<rightharpoonup> string) \<Rightarrow> (string \<times> GraphBranch list) list \<Rightarrow> gen_state \<Rightarrow> gen_state" where
  "branchEdges_v2 m branches st =
     fold (\<lambda>(fromNode, branchList) st.
             if length branchList = 0 then st
             else case m fromNode of
                    None \<Rightarrow> st
                  | Some fromID \<Rightarrow>
                      fold (\<lambda>branch st.
                              if length (endNodes branch) = 0 then st
                              else fold (solidStep_v2 m fromID) (map fst (endNodes branch)) st)
                           branchList st)
          branches st"

definition writes_v2 :: "GraphInfo \<Rightarrow> line list" where
  "writes_v2 info =
     (let m = idMap_v2 info;
          buf = [Raw ''graph TD\<newline>'', Raw ''    StartNode([Start])\<newline>'', Raw ''    EndNode([End])\<newline>'']
                  @ map (nodeLine_v2 m) (Nodes info) @ [Raw ''\<newline>''];
          st = controlEdges_v2 m (Edges info) (buf, \<lambda>key. False);
          st = dataEdges_v2 m (DataEdges info) st;
          st = branchEdges_v2 m (Branches info) st
      in fst st)"

definition GenerateMermaidFlowchart_v2 :: "GraphInfo \<Rightarrow> string" where
  "GenerateMermaidFlowchart_v2 info = String (writes_v2 info)"

subsection \<open>Notions used to state the properties of the generator\<close>

text \<open>The endpoint pair of an arrow line; the pairs of a buffer, in the order written.\<close>

fun endpoints :: "line \<Rightarrow> (string \<times> string) list" where
  "endpoints (Solid a b) = [(a, b)]"
| "endpoints (Dashed a b) = [(a, b)]"
| "endpoints (Raw s) = []"
| "endpoints (NodeLine i k c) = []"

definition edge_pairs :: "line list \<Rightarrow> (string \<times> string) list" where
  "edge_pairs buf = concat (map endpoints buf)"

text \<open>\<open>hasEdge edges from to\<close>: the map has an entry for \<open>from\<close> whose list holds \<open>to\<close>.\<close>

definition hasEdge :: "(string \<times> string list) list \<Rightarrow> string \<Rightarrow> string \<Rightarrow> bool" where
  "hasEdge edges from to = list_ex (\<lambda>(f, toList). f = from \<and> to \<in> set toList) edges"

text \<open>
  The pairs of Mermaid identifiers an edge map asks an arrow for: one pair for every
  target of every entry, where both the source and the target are keys of the id map
  (the endpoints are known), in the order of the two nested loops.
\<close>

definition requests :: "(string \<rightharpoonup> string) \<Rightarrow> string \<Rightarrow> string list \<Rightarrow> (string \<times> string) list" where
  "requests m from toList =
     (case m from of None \<Rightarrow> []
      | Some a \<Rightarrow> concat (map (\<lambda>to. case m to of None \<Rightarrow> [] | Some b \<Rightarrow> [(a, b)]) toList))"

definition edgeRequests :: "(string \<rightharpoonup> string) \<Rightarrow> (string \<times> string list) list \<Rightarrow> (string \<times> string) list" where
  "edgeRequests m edges = concat (map (\<lambda>(from, toList). requests m from toList) edges)"

definition branchRequests :: "(string \<rightharpoonup> string) \<Rightarrow> (string \<times> GraphBranch list) list \<Rightarrow> (string \<times> string) list" where
  "branchRequests m branches =
     concat (map (\<lambda>(from, branchList).
                    concat (map (\<lambda>br. requests m from (map fst (endNodes br))) branchList)) branches)"

definition controlPairs :: "GraphInfo \<Rightarrow> (string \<times> string) list" where
  "controlPairs info = edgeRequests (idMap info) (Edges info)"

text \<open>What the three inner loop bodies do once both identifiers are known.\<close>

definition arrow :: "bool \<Rightarrow> string \<Rightarrow> string \<Rightarrow> line" where
  "arrow dashed a b = (if dashed then Dashed a b else Solid a b)"

fun emit :: "bool \<Rightarrow> string \<times> string \<Rightarrow> gen_state \<Rightarrow> gen_state" where
  "emit dashed (a, b) (buf, seen) =
     (if seen (edgeKey a b) then (buf, seen)
      else (buf @ [arrow dashed a b], seen(edgeKey a b := True)))"

definition nodash :: "string \<Rightarrow> bool" where
  "nodash s \<longleftrightarrow> CHR ''-'' \<notin> set s"

text \<open>
  The invariant of the three edge sections: no endpoint pair was written twice, and the
  keys marked in \<open>seenEdges\<close> are those of the pairs written.
\<close>

definition gen_inv :: "gen_state \<Rightarrow> bool" where
  "gen_inv st \<longleftrightarrow>
     distinct (edge_pairs (fst st)) \<and>
     (\<forall>a b. nodash a \<longrightarrow> (snd st (edgeKey a b) \<longleftrightarrow> (a, b) \<in> set (edge_pairs (fst st))))"

definition header :: "GraphInfo \<Rightarrow> line list" where
  "header info =
     [Raw ''graph TD\<newline>'', Raw ''    StartNode([Start])\<newline>'', Raw ''    EndNode([End])\<newline>'']
       @ map (nodeLine (idMap info)) (Nodes info) @ [Raw ''\<newline>'']"

text \<open>
  Sample inputs. \<open>chainInfo\<close> is the graph of the repository's test
  (\<open>start \<rightarrow> node_1 \<rightarrow> node_2 \<rightarrow> node_3 \<rightarrow> end\<close>) with one data edge added;
  \<open>bothInfo\<close> has the pair \<open>(start, end)\<close> as a control edge and as a data edge.
\<close>

definition chainInfo :: GraphInfo where
  "chainInfo =
     \<lparr>Nodes = [(''node_1'', \<lparr>Component = ''Lambda''\<rparr>), (''node_2'', \<lparr>Component = ''Lambda''\<rparr>),
               (''node_3'', \<lparr>Component = ''Lambda''\<rparr>)],
      Edges = [(''start'', [''node_1'']), (''node_1'', [''node_2'']), (''node_2'', [''node_3'']),
               (''node_3'', [''end''])],
      DataEdges = [(''node_1'', [''node_3''])],
      Branches = []\<rparr>"

definition bothInfo :: GraphInfo where
  "bothInfo =
     \<lparr>Nodes = [], Edges = [(''start'', [''end''])], DataEdges = [(''start'', [''end''])],
      Branches = []\<rparr>"

section \<open>Run sessions of package \<open>adk\<close>\<close>

subsection \<open>Store, sessions, contexts\<close>

text \<open>
  A Go map is a reference to a table, and the claims about the session value bag are
  about which tables two references share. So the tables live in a store: address \<open>a\<close>
  holds the entries \<open>tables st a\<close>, as an association list that \<open>range\<close> visits in
  order; the addresses below \<open>nextMap st\<close> are the allocated ones. A map reference is
  \<open>Some a\<close>, or \<open>None\<close> for the nil map. A value of type \<open>any\<close> is \<open>Some v\<close>, or
  \<open>None\<close> for nil.

  A \<open>*runSession\<close> is an address into \<open>sessions st\<close>, or \<open>None\<close> for nil. Of the
  struct, \<open>Values\<close> and \<open>interruptRunCtxs\<close> are modelled; \<open>Events\<close> is not read or
  written by the functions below, and the mutex only serialises the calls, which are
  taken one at a time here. A \<open>*runContext\<close> in the list or as an argument is given by
  the record it points to (\<open>RootInput\<close> is not read below).
\<close>

record runContext =
  RunPath :: "string list"
  Session :: "nat option"

record runSession =
  Values :: "nat option"
  interruptRunCtxs :: "runContext list"

record 'v store =
  tables :: "nat \<Rightarrow> (string \<times> 'v option) list"
  nextMap :: nat
  sessions :: "nat \<Rightarrow> runSession"
  nextSession :: nat

datatype panic = NilPointerDereference | AssignmentToNilMap

text \<open>\<open>make(map[string]any)\<close> and the literal \<open>map[string]any{}\<close>: a fresh empty table.\<close>

definition makeMap :: "'v store \<Rightarrow> 'v store \<times> nat" where
  "makeMap st = (st\<lparr>tables := (tables st)(nextMap st := []), nextMap := Suc (nextMap st)\<rparr>, nextMap st)"

text \<open>\<open>m[key] = value\<close>: a panic on the nil map, otherwise the entry is set in place.\<close>

definition mapAssign :: "'v store \<Rightarrow> nat option \<Rightarrow> string \<Rightarrow> 'v option \<Rightarrow> panic + 'v store" where
  "mapAssign st m key val =
     (case m of
        None \<Rightarrow> Inl AssignmentToNilMap
      | Some a \<Rightarrow> Inr (st\<lparr>tables := (tables st)(a := AList.update key val (tables st a))\<rparr>))"

text \<open>\<open>value, ok := m[key]\<close>: the nil map has no entries.\<close>

definition mapLookup :: "'v store \<Rightarrow> nat option \<Rightarrow> string \<Rightarrow> 'v option \<times> bool" where
  "mapLookup st m key =
     (case m of
        None \<Rightarrow> (None, False)
      | Some a \<Rightarrow> (case map_of (tables st a) key of None \<Rightarrow> (None, False) | Some v \<Rightarrow> (v, True)))"

text \<open>The entries \<open>range\<close> visits.\<close>

definition mapEntries :: "'v store \<Rightarrow> nat option \<Rightarrow> (string \<times> 'v option) list" where
  "mapEntries st m = (case m of None \<Rightarrow> [] | Some a \<Rightarrow> tables st a)"

text \<open>\<open>newRunSession\<close>: a fresh session with a fresh empty \<open>Values\<close> map.\<close>

definition newRunSession :: "'v store \<Rightarrow> 'v store \<times> nat" where
  "newRunSession st =
     (case makeMap st of (st1, m) \<Rightarrow>
        (st1\<lparr>sessions := (sessions st1)(nextSession st1 := \<lparr>Values = Some m, interruptRunCtxs = []\<rparr>),
             nextSession := Suc (nextSession st1)\<rparr>,
         nextSession st1))"

text \<open>
  Of a \<open>context.Context\<close> only the value bound to \<open>runCtxKey{}\<close> matters: none, the
  untyped nil that \<open>ClearRunCtx\<close> binds, or a \<open>*runContext\<close> (possibly a nil pointer).
  The type assertion of \<open>getRunCtx\<close> fails on the first two.
\<close>

datatype Context = NoValue | NilValue | RunCtxPtr "runContext option"

definition getRunCtx :: "Context \<Rightarrow> runContext option" where
  "getRunCtx ctx = (case ctx of NoValue \<Rightarrow> None | NilValue \<Rightarrow> None | RunCtxPtr runCtx \<Rightarrow> runCtx)"

definition setRunCtx :: "Context \<Rightarrow> runContext \<Rightarrow> Context" where
  "setRunCtx ctx runCtx = RunCtxPtr (Some runCtx)"

definition ClearRunCtx :: "Context \<Rightarrow> Context" where
  "ClearRunCtx ctx = NilValue"

definition getSession :: "Context \<Rightarrow> nat option" where
  "getSession ctx = (case getRunCtx ctx of Some runCtx \<Rightarrow> Session runCtx | None \<Rightarrow> None)"

subsection \<open>Methods of \<open>*runSession\<close>\<close>

text \<open>A method called on the nil session panics at \<open>rs.mtx.Lock()\<close>.\<close>

text \<open>
  \<open>getValues\<close>: a new map is made and every entry of \<open>rs.Values\<close> is assigned to it.
\<close>

definition copyEntries :: "nat \<Rightarrow> (string \<times> 'v option) list \<Rightarrow> 'v store \<Rightarrow> 'v store" where
  "copyEntries values entries st =
     fold (\<lambda>(k, v) st. st\<lparr>tables := (tables st)(values := AList.update k v (tables st values))\<rparr>) entries st"

definition getValues :: "'v store \<Rightarrow> nat option \<Rightarrow> panic + ('v store \<times> nat option)" where
  "getValues st rs =
     (case rs of
        None \<Rightarrow> Inl NilPointerDereference
      | Some a \<Rightarrow>
          (case makeMap st of (st1, values) \<Rightarrow>
             Inr (copyEntries values (mapEntries st1 (Values (sessions st1 a))) st1, Some values)))"

definition setValue :: "'v store \<Rightarrow> nat option \<Rightarrow> string \<Rightarrow> 'v option \<Rightarrow> panic + 'v store" where
  "setValue st rs key val =
     (case rs of
        None \<Rightarrow> Inl NilPointerDereference
      | Some a \<Rightarrow> mapAssign st (Values (sessions st a)) key val)"

definition getValue :: "'v store \<Rightarrow> nat option \<Rightarrow> string \<Rightarrow> panic + ('v option \<times> bool)" where
  "getValue st rs key =
     (case rs of
        None \<Rightarrow> Inl NilPointerDereference
      | Some a \<Rightarrow> Inr (mapLookup st (Values (sessions st a)) key))"

text \<open>
  \<open>belongToRunPath\<close> is called by \<open>replaceInterruptRunCtx\<close>; it is defined in
  another file of package \<open>adk\<close>. The comment at the call reads "remove runctx whose
  path is belong to the new run ctx", and the call passes the new run path first and the
  entry's run path second: an entry belongs to the new run context when the new run path
  is an initial segment of the entry's run path. The helper compares the lengths first
  and then the steps one by one.
\<close>

definition belongToRunPath :: "string list \<Rightarrow> string list \<Rightarrow> bool" where
  "belongToRunPath eventRunPath runPath =
     (if length runPath < length eventRunPath then False
      else list_all (\<lambda>i. runPath ! i = eventRunPath ! i) [0..<length eventRunPath])"

text \<open>
  The loop of \<open>replaceInterruptRunCtx\<close>. When entry \<open>i\<close> is removed, \<open>i--\<close> and the
  loop's \<open>i++\<close> leave \<open>i\<close> where it is; otherwise \<open>i\<close> moves on.
\<close>

function replaceLoop :: "runContext \<Rightarrow> nat \<Rightarrow> runContext list \<Rightarrow> runContext list" where
  "replaceLoop interruptRunCtx i xs =
     (if i < length xs
      then (if belongToRunPath (RunPath interruptRunCtx) (RunPath (xs ! i))
            then replaceLoop interruptRunCtx i (take i xs @ drop (Suc i) xs)
            else replaceLoop interruptRunCtx (Suc i) xs)
      else xs)"
  by pat_completeness auto
termination
  by (relation "measure (\<lambda>(c, i, xs). length xs - i)") auto

declare replaceLoop.simps [simp del]

definition runSession_replaceInterruptRunCtx :: "runSession \<Rightarrow> runContext \<Rightarrow> runSession" where
  "runSession_replaceInterruptRunCtx rs interruptRunCtx =
     rs\<lparr>interruptRunCtxs := replaceLoop interruptRunCtx 0 (interruptRunCtxs rs) @ [interruptRunCtx]\<rparr>"

definition runSession_appendInterruptRunCtx :: "runSession \<Rightarrow> runContext \<Rightarrow> runSession" where
  "runSession_appendInterruptRunCtx rs runCtx = rs\<lparr>interruptRunCtxs := interruptRunCtxs rs @ [runCtx]\<rparr>"

subsection \<open>Package-level accessors\<close>

definition replaceInterruptRunCtx :: "'v store \<Rightarrow> Context \<Rightarrow> runContext \<Rightarrow> 'v store" where
  "replaceInterruptRunCtx st ctx interruptRunCtx =
     (case getSession ctx of
        None \<Rightarrow> st
      | Some a \<Rightarrow>
          st\<lparr>sessions := (sessions st)(a := runSession_replaceInterruptRunCtx (sessions st a) interruptRunCtx)\<rparr>)"

definition GetSessionValues :: "'v store \<Rightarrow> Context \<Rightarrow> panic + ('v store \<times> nat option)" where
  "GetSessionValues st ctx =
     (case getSession ctx of
        None \<Rightarrow> (case makeMap st of (st1, m) \<Rightarrow> Inr (st1, Some m))
      | Some a \<Rightarrow> getValues st (Some a))"

definition SetSessionValue :: "'v store \<Rightarrow> Context \<Rightarrow> string \<Rightarrow> 'v option \<Rightarrow> panic + 'v store" where
  "SetSessionValue st ctx key val =
     (case getSession ctx of
        None \<Rightarrow> Inr st
      | Some a \<Rightarrow> setValue st (Some a) key val)"

definition GetSessionValue :: "'v store \<Rightarrow> Context \<Rightarrow> string \<Rightarrow> panic + ('v option \<times> bool)" where
  "GetSessionValue st ctx key =
     (case getSession ctx of
        None \<Rightarrow> Inr (None, False)
      | Some a \<Rightarrow> getValue st (Some a) key)"

text \<open>
  Sample data: a store with nothing allocated, and the store and session address that
  \<open>newRunSession\<close> gives from it.
\<close>

definition emptyStore :: "string store" where
  "emptyStore = \<lparr>tables = (\<lambda>a. []), nextMap = 0,
                 sessions = (\<lambda>a. \<lparr>Values = None, interruptRunCtxs = []\<rparr>), nextSession = 0\<rparr>"

definition rc :: "string list \<Rightarrow> runContext" where
  "rc path = \<lparr>RunPath = path, Session = Some 0\<rparr>"

definition sampleStore :: "string store" where
  "sampleStore =
     (case newRunSession emptyStore of (st, a) \<Rightarrow>
        (case setValue st (Some a) ''k'' (Some ''v'') of Inr st1 \<Rightarrow> st1 | Inl p \<Rightarrow> st))"

definition fiveEntries :: "string store" where
  "fiveEntries =
     emptyStore\<lparr>sessions := (\<lambda>a. \<lparr>Values = Some 0, interruptRunCtxs =
       [rc [''a''], rc [''b''], rc [''a'', ''b''], rc [''a'', ''b'', ''c''], rc [''a'', ''c'']]\<rparr>)\<rparr>"

section \<open>Messages of package \<open>schema\<close>\<close>

text \<open>
  Of \<open>schema.Message\<close> and \<open>schema.ToolCall\<close> the fields read or set below. A
  \<open>*schema.Message\<close> is \<open>Some m\<close>, or \<open>None\<close> for nil.
\<close>

record ToolCall =
  ID :: string
  Name :: string
  Arguments :: string

record Message =
  Role :: string
  Content :: string
  ToolCalls :: "ToolCall list"
  ToolCallID :: string
  ToolName :: string

section \<open>\<open>BackToParentWrapper.Run\<close> of package \<open>prebuilt\<close>\<close>



















section \<open>Stream pipe\<close>

text \<open>
  Modelled from the spec: \<open>schema.Pipe\<close>, \<open>Send\<close>, \<open>Close\<close> and \<open>Recv\<close> are used by
  the repository's tests but their bodies are not among the sources covered here. The spec (4.1): "pipe(buffer=n)
  returns a reader/writer pair. Writer operations: send(value, err) (non-blocking if
  buffer slots available, otherwise blocks until consumer advances or cancellation),
  close(). Reader operations: recv() -> (value, err) where a sentinel end-of-stream
  error signals termination"; "Exactly one reader, one writer"; (5) "Within a single
  stream, chunks are delivered in producer order".

  The state of a pipe is the queue of chunks sent and not yet received, its capacity,
  and whether the writer was closed. An operation that would block returns \<open>None\<close>.
  With capacity 0 there is no free slot ever: a chunk is handed over when the reader
  asks while the writer waits in \<open>send\<close> (\<open>handOver\<close>).
\<close>

record 'a pipe =
  queue :: "'a list"
  capacity :: nat
  writerClosed :: bool

definition Pipe :: "nat \<Rightarrow> 'a pipe" where
  "Pipe n = \<lparr>queue = [], capacity = n, writerClosed = False\<rparr>"

definition send :: "'a \<Rightarrow> 'a pipe \<Rightarrow> 'a pipe option" where
  "send v p = (if length (queue p) < capacity p then Some (p\<lparr>queue := queue p @ [v]\<rparr>) else None)"

definition closeWriter :: "'a pipe \<Rightarrow> 'a pipe" where
  "closeWriter p = p\<lparr>writerClosed := True\<rparr>"

datatype 'a received = Chunk 'a | EndOfStream

definition recv :: "'a pipe \<Rightarrow> ('a received \<times> 'a pipe) option" where
  "recv p =
     (case queue p of
        v # rest \<Rightarrow> Some (Chunk v, p\<lparr>queue := rest\<rparr>)
      | [] \<Rightarrow> (if writerClosed p then Some (EndOfStream, p) else None))"

text \<open>
  A producer that sends the chunks of \<open>toSend\<close> in order and then closes the writer,
  and a consumer that calls \<open>recv\<close> again and again, noting what it gets (\<open>got\<close>, in
  order) and whether it got the end-of-stream sentinel (\<open>sawEnd\<close>). They run
  concurrently: a schedule says whose turn it is. A turn of an actor that is blocked,
  or has nothing left to do, changes nothing.
\<close>

record 'a system =
  toSend :: "'a list"
  thePipe :: "'a pipe"
  got :: "'a list"
  sawEnd :: bool

datatype actor = Producer | Consumer

definition producerTurn :: "'a system \<Rightarrow> 'a system" where
  "producerTurn s =
     (case toSend s of
        [] \<Rightarrow> s\<lparr>thePipe := closeWriter (thePipe s)\<rparr>
      | v # rest \<Rightarrow>
          (case send v (thePipe s) of
             Some p \<Rightarrow> s\<lparr>toSend := rest, thePipe := p\<rparr>
           | None \<Rightarrow> s))"

definition handOver :: "'a system \<Rightarrow> 'a system" where
  "handOver s =
     (case toSend s of
        v # rest \<Rightarrow>
          (if capacity (thePipe s) = 0 then s\<lparr>toSend := rest, got := got s @ [v]\<rparr> else s)
      | [] \<Rightarrow> s)"

definition consumerTurn :: "'a system \<Rightarrow> 'a system" where
  "consumerTurn s =
     (if sawEnd s then s
      else case recv (thePipe s) of
             Some (Chunk v, p) \<Rightarrow> s\<lparr>thePipe := p, got := got s @ [v]\<rparr>
           | Some (EndOfStream, p) \<Rightarrow> s\<lparr>thePipe := p, sawEnd := True\<rparr>
           | None \<Rightarrow> handOver s)"

fun turn :: "actor \<Rightarrow> 'a system \<Rightarrow> 'a system" where
  "turn Producer s = producerTurn s"
| "turn Consumer s = consumerTurn s"

definition start :: "nat \<Rightarrow> 'a list \<Rightarrow> 'a system" where
  "start n vs = \<lparr>toSend = vs, thePipe = Pipe n, got = [], sawEnd = False\<rparr>"

definition runSchedule :: "actor list \<Rightarrow> 'a system \<Rightarrow> 'a system" where
  "runSchedule sched s = fold turn sched s"

text \<open>The schedule in which producer and consumer take turns, \<open>n\<close> rounds.\<close>

definition alternate :: "nat \<Rightarrow> actor list" where
  "alternate n = concat (replicate n [Producer, Consumer])"

text \<open>What every reachable state satisfies.\<close>

definition pipe_inv :: "'a list \<Rightarrow> 'a system \<Rightarrow> bool" where
  "pipe_inv vs s \<longleftrightarrow>
     got s @ queue (thePipe s) @ toSend s = vs \<and>
     (writerClosed (thePipe s) \<longrightarrow> toSend s = []) \<and>
     (sawEnd s \<longrightarrow> writerClosed (thePipe s) \<and> queue (thePipe s) = [])"

section \<open>ReAct agent\<close>

text \<open>
  Modelled from the spec: the agent of package \<open>react\<close> (\<open>NewAgent\<close>, \<open>Generate\<close>,
  \<open>Stream\<close>) and the graph executor it runs on are not among the sources covered here; only
  the tests that call them are. The spec (4.7) gives the graph: node \<open>model\<close> "calls the
  chat model with the current message list; returns a message possibly carrying tool
  calls"; \<open>controller\<close> (branch on the \<open>model\<close> output): "if the returned message has no
  tool calls, route to end; else route to tools"; node \<open>tools\<close> "dispatches each tool in
  parallel, collects a tool-response message per call"; \<open>append\<close>: "after tools,
  append the tool responses to the message list and route back to model". Options:
  \<open>max-step\<close> "executor's step bound"; \<open>message-modifier\<close> "invoked on the message list
  before every model call"; \<open>tool-return-directly\<close>: "if any tool call in a parallel
  batch invokes such a tool, after tools completes execution routes to end with that
  tool's output as the final message (other tool results are still evaluated but
  discarded from the output)". The executor (4.5) runs a cyclic graph in super-steps and
  "iteration halts when end receives an input or when max-steps is exhausted (fatal
  error)"; the first node error fails the execution.

  Choices the spec leaves open, fixed here: a super-step is one firing of \<open>model\<close> or of
  \<open>tools\<close> (the controller is a branch, and the append of the tool responses is applied
  with the output of the tools step on the way back to \<open>model\<close>); the model's message
  joins the message list when the model returns; when several calls of a batch invoke
  return-directly tools, the first in the batch gives the output. The chat model may
  depend on how often it was invoked before (the tests use a counter), so it takes that
  number. A tool may have a state of its own (the tools of the tests count their
  invocations): a tool maps its arguments and the tools' state to a result and a new
  state, and the calls of a batch are run in the order of the batch. Streaming and the
  per-call tool list are left out.
\<close>

datatype reactError = ModelError string | ToolError string | ToolNotFound string | StepLimitExceeded

record 's AgentConfig =
  Model :: "nat \<Rightarrow> Message list \<Rightarrow> string + Message"
  Tools :: "string \<Rightarrow> (string \<Rightarrow> 's \<Rightarrow> (string + string) \<times> 's) option"
  ToolReturnDirectly :: "string set"
  MessageModifier :: "Message list \<Rightarrow> Message list"
  MaxStep :: nat

text \<open>
  The state of one execution: the message list, the number of model invocations, the
  tool calls invoked so far in order, and the state of the tools.
\<close>

record 's execution =
  messages :: "Message list"
  modelCalls :: nat
  toolCalls :: "ToolCall list"
  toolState :: 's

datatype node = ModelNode | ToolsNode Message | EndNode Message

text \<open>One tool invocation: the tool is looked up by name and run on the arguments.\<close>

definition runTool :: "'s AgentConfig \<Rightarrow> ToolCall \<Rightarrow> 's \<Rightarrow> (reactError + Message) \<times> 's" where
  "runTool cfg call s =
     (case Tools cfg (Name call) of
        None \<Rightarrow> (Inl (ToolNotFound (Name call)), s)
      | Some f \<Rightarrow>
          (case f (Arguments call) s of
             (Inl e, s') \<Rightarrow> (Inl (ToolError e), s')
           | (Inr out, s') \<Rightarrow>
               (Inr \<lparr>Role = ''tool'', Content = out, ToolCalls = [], ToolCallID = ID call,
                     ToolName = Name call\<rparr>, s')))"

text \<open>
  The tools node invokes every call of the batch: each invocation is noted in the log
  and may change the tools' state, whatever the other calls return.
\<close>

fun dispatch ::
  "'s AgentConfig \<Rightarrow> ToolCall list \<Rightarrow> 's \<times> ToolCall list
   \<Rightarrow> (reactError + Message) list \<times> ('s \<times> ToolCall list)" where
  "dispatch cfg [] (s, invoked) = ([], (s, invoked))"
| "dispatch cfg (call # calls) (s, invoked) =
     (case runTool cfg call s of
        (r, s1) \<Rightarrow>
          (case dispatch cfg calls (s1, invoked @ [call]) of
             (rs, final) \<Rightarrow> (r # rs, final)))"

text \<open>The responses of a batch, or the first error among them.\<close>

fun collect :: "(reactError + Message) list \<Rightarrow> reactError + Message list" where
  "collect [] = Inr []"
| "collect (Inl e # rs) = Inl e"
| "collect (Inr r # rs) = (case collect rs of Inl e \<Rightarrow> Inl e | Inr ms \<Rightarrow> Inr (r # ms))"

text \<open>The response of the first call of the batch that invokes a return-directly tool.\<close>

definition directResponse :: "'s AgentConfig \<Rightarrow> ToolCall list \<Rightarrow> Message list \<Rightarrow> Message option" where
  "directResponse cfg calls responses =
     map_option snd (find (\<lambda>(call, r). Name call \<in> ToolReturnDirectly cfg) (zip calls responses))"

fun superStep :: "'s AgentConfig \<Rightarrow> node \<Rightarrow> 's execution \<Rightarrow> reactError + node \<times> 's execution" where
  "superStep cfg ModelNode ex =
     (case Model cfg (modelCalls ex) (MessageModifier cfg (messages ex)) of
        Inl e \<Rightarrow> Inl (ModelError e)
      | Inr m \<Rightarrow>
          Inr (if ToolCalls m = [] then EndNode m else ToolsNode m,
               \<lparr>messages = messages ex @ [m], modelCalls = Suc (modelCalls ex),
                toolCalls = toolCalls ex, toolState = toolState ex\<rparr>))"
| "superStep cfg (ToolsNode m) ex =
     (case dispatch cfg (ToolCalls m) (toolState ex, toolCalls ex) of
        (results, (s, invoked)) \<Rightarrow>
          (case collect results of
             Inl e \<Rightarrow> Inl e
           | Inr responses \<Rightarrow>
               (case directResponse cfg (ToolCalls m) responses of
                  Some r \<Rightarrow>
                    Inr (EndNode r,
                         \<lparr>messages = messages ex, modelCalls = modelCalls ex,
                          toolCalls = invoked, toolState = s\<rparr>)
                | None \<Rightarrow>
                    Inr (ModelNode,
                         \<lparr>messages = messages ex @ responses, modelCalls = modelCalls ex,
                          toolCalls = invoked, toolState = s\<rparr>))))"
| "superStep cfg (EndNode m) ex = Inr (EndNode m, ex)"

text \<open>At most \<open>k\<close> super-steps; the run is over as soon as \<open>end\<close> has its input.\<close>

fun steps :: "'s AgentConfig \<Rightarrow> nat \<Rightarrow> node \<Rightarrow> 's execution \<Rightarrow> reactError + Message \<times> 's execution" where
  "steps cfg k (EndNode m) ex = Inr (m, ex)"
| "steps cfg 0 n ex = Inl StepLimitExceeded"
| "steps cfg (Suc k) n ex =
     (case superStep cfg n ex of
        Inl e \<Rightarrow> Inl e
      | Inr (n', ex') \<Rightarrow> steps cfg k n' ex')"

definition Generate :: "'s AgentConfig \<Rightarrow> Message list \<Rightarrow> 's \<Rightarrow> reactError + Message \<times> 's execution" where
  "Generate cfg input s =
     steps cfg (MaxStep cfg) ModelNode \<lparr>messages = input, modelCalls = 0, toolCalls = [], toolState = s\<rparr>"

text \<open>
  Sample agents, after the repository's tests. The tools' state is the pair of the
  invocation counters of the tools \<open>greet\<close> and \<open>greet in stream\<close>. The chat model
  asks for \<open>greet\<close> on its first two invocations and says \<open>bye\<close> afterwards
  (\<open>greetModel\<close>), or asks for \<open>greet\<close> and \<open>greet in stream\<close> in one batch
  (\<open>parallelModel\<close>), or does as \<open>greetModel\<close> as long as the message list it is given
  has the length the run gives it, and fails otherwise (\<open>pickyModel\<close>).
\<close>

definition greetCall :: ToolCall where
  "greetCall = \<lparr>ID = ''call_1'', Name = ''greet'', Arguments = ''max''\<rparr>"

definition streamCall :: ToolCall where
  "streamCall = \<lparr>ID = ''call_2'', Name = ''greet in stream'', Arguments = ''bob''\<rparr>"

definition assistant :: "string \<Rightarrow> ToolCall list \<Rightarrow> Message" where
  "assistant content calls =
     \<lparr>Role = ''assistant'', Content = content, ToolCalls = calls, ToolCallID = [], ToolName = []\<rparr>"

definition toolMessage :: "string \<Rightarrow> ToolCall \<Rightarrow> Message" where
  "toolMessage out call =
     \<lparr>Role = ''tool'', Content = out, ToolCalls = [], ToolCallID = ID call, ToolName = Name call\<rparr>"

definition greetModel :: "nat \<Rightarrow> Message list \<Rightarrow> string + Message" where
  "greetModel n input =
     (if n < 2 then Inr (assistant ''hello max'' [greetCall]) else Inr (assistant ''bye'' []))"

definition pickyModel :: "nat \<Rightarrow> Message list \<Rightarrow> string + Message" where
  "pickyModel n input =
     (if length input \<noteq> 2 * n + 1 then Inl ''unexpected input''
      else if n < 2 then Inr (assistant ''hello max'' [greetCall])
      else Inr (assistant ''bye'' []))"

definition parallelModel :: "nat \<Rightarrow> Message list \<Rightarrow> string + Message" where
  "parallelModel n input =
     (if n < 1 then Inr (assistant ''hello max'' [greetCall, streamCall])
      else Inr (assistant ''bye'' []))"

definition greetTools :: "string \<Rightarrow> (string \<Rightarrow> nat \<times> nat \<Rightarrow> (string + string) \<times> (nat \<times> nat)) option" where
  "greetTools name =
     (if name = ''greet''
      then Some (\<lambda>args (g, t). (Inr (''hello '' @ args), (Suc g, t)))
      else if name = ''greet in stream''
      then Some (\<lambda>args (g, t). (Inr (''stream hello '' @ args), (g, Suc t)))
      else None)"

definition failingTools :: "string \<Rightarrow> (string \<Rightarrow> nat \<times> nat \<Rightarrow> (string + string) \<times> (nat \<times> nat)) option" where
  "failingTools name =
     (if name = ''greet'' then Some (\<lambda>args (g, t). (Inl ''boom'', (Suc g, t))) else None)"

definition userInput :: "Message list" where
  "userInput = [\<lparr>Role = ''user'', Content = ''hello'', ToolCalls = [], ToolCallID = [], ToolName = []\<rparr>]"

definition plainAgent :: "(nat \<times> nat) AgentConfig" where
  "plainAgent = \<lparr>Model = pickyModel, Tools = greetTools, ToolReturnDirectly = {},
                 MessageModifier = (\<lambda>input. input), MaxStep = 10\<rparr>"

definition directAgent :: "(nat \<times> nat) AgentConfig" where
  "directAgent = \<lparr>Model = greetModel, Tools = greetTools, ToolReturnDirectly = {''greet''},
                  MessageModifier = (\<lambda>input. input), MaxStep = 40\<rparr>"

definition failingAgent :: "(nat \<times> nat) AgentConfig" where
  "failingAgent = \<lparr>Model = greetModel, Tools = failingTools, ToolReturnDirectly = {},
                   MessageModifier = (\<lambda>input. input), MaxStep = 40\<rparr>"

definition oneStepAgent :: "(nat \<times> nat) AgentConfig" where
  "oneStepAgent = \<lparr>Model = greetModel, Tools = greetTools, ToolReturnDirectly = {},
                   MessageModifier = (\<lambda>input. input), MaxStep = 1\<rparr>"

definition parallelAgent :: "(nat \<times> nat) AgentConfig" where
  "parallelAgent = \<lparr>Model = parallelModel, Tools = greetTools,
                    ToolReturnDirectly = {''greet in stream''},
                    MessageModifier = (\<lambda>input. input), MaxStep = 40\<rparr>"

definition bothDirectAgent :: "(nat \<times> nat) AgentConfig" where
  "bothDirectAgent = \<lparr>Model = parallelModel, Tools = greetTools,
                      ToolReturnDirectly = {''greet'', ''greet in stream''},
                      MessageModifier = (\<lambda>input. input), MaxStep = 40\<rparr>"

section \<open>Proofs: Mermaid export\<close>

lemma escapeID_nodash: "nodash (escapeID s)"
  by (auto simp: nodash_def escapeID_def replacerTable_def split: if_splits)

lemma edgeKey_inj:
  assumes "nodash a" "nodash a'" "edgeKey a b = edgeKey a' b'"
  shows "a = a' \<and> b = b'"
proof -
  let ?P = "\<lambda>c. c \<noteq> CHR ''-''"
  have tw: "takeWhile ?P (edgeKey x y) = x" if "nodash x" for x y
    using that by (auto simp: edgeKey_def nodash_def takeWhile_tail)
  have "a = a'" using assms tw by metis
  with assms(3) show ?thesis by (simp add: edgeKey_def)
qed

lemma solidStep_emit:
  "solidStep m a to st = (case m to of None \<Rightarrow> st | Some b \<Rightarrow> emit False (a, b) st)"
  by (cases st) (simp add: arrow_def split: option.splits)

lemma dashedStep_emit:
  "dashedStep m a to st = (case m to of None \<Rightarrow> st | Some b \<Rightarrow> emit True (a, b) st)"
  by (cases st) (simp add: arrow_def split: option.splits)

lemma fold_solidStep:
  "fold (solidStep m a) toList st =
   fold (emit False) (concat (map (\<lambda>to. case m to of None \<Rightarrow> [] | Some b \<Rightarrow> [(a, b)]) toList)) st"
  by (induction toList arbitrary: st) (simp_all add: solidStep_emit split: option.splits)

lemma fold_dashedStep:
  "fold (dashedStep m a) toList st =
   fold (emit True) (concat (map (\<lambda>to. case m to of None \<Rightarrow> [] | Some b \<Rightarrow> [(a, b)]) toList)) st"
  by (induction toList arbitrary: st) (simp_all add: dashedStep_emit split: option.splits)

lemma controlEdges_requests:
  "controlEdges m edges st = fold (emit False) (edgeRequests m edges) st"
  unfolding controlEdges_def edgeRequests_def
  by (induction edges arbitrary: st)
     (auto simp: requests_def fold_solidStep split: option.splits)

lemma dataEdges_requests:
  "dataEdges m edges st = fold (emit True) (edgeRequests m edges) st"
  unfolding dataEdges_def edgeRequests_def
  by (induction edges arbitrary: st)
     (auto simp: requests_def fold_dashedStep split: option.splits)

lemma branchList_requests:
  "fold (\<lambda>branch st. if endNodes branch = [] then st
                     else fold (solidStep m a) (map fst (endNodes branch)) st) branchList st =
   fold (emit False) (concat (map (\<lambda>br. requests m from (map fst (endNodes br))) branchList)) st"
  if "m from = Some a"
  using that by (induction branchList arbitrary: st) (auto simp: requests_def fold_solidStep)

lemma requests_unknown: "m from = None \<Longrightarrow> requests m from toList = []"
  by (simp add: requests_def)

lemma concat_map_Nil: "concat (map (\<lambda>x. []) xs) = []"
  by (induction xs) simp_all

lemma branchEdges_requests:
  "branchEdges m branches st = fold (emit False) (branchRequests m branches) st"
  unfolding branchEdges_def branchRequests_def
  by (induction branches arbitrary: st)
     (auto simp: branchList_requests requests_unknown concat_map_Nil split: option.splits)


lemma edge_pairs_append [simp]: "edge_pairs (xs @ ys) = edge_pairs xs @ edge_pairs ys"
  by (simp add: edge_pairs_def)

lemma edge_pairs_arrow [simp]: "edge_pairs [arrow d a b] = [(a, b)]"
  by (simp add: edge_pairs_def arrow_def)

lemma endpoints_arrow [simp]: "endpoints (arrow d a b) = [(a, b)]"
  by (simp add: arrow_def)

lemma edge_pairs_mem: "p \<in> set (edge_pairs buf) \<longleftrightarrow> (\<exists>l\<in>set buf. p \<in> set (endpoints l))"
  by (auto simp: edge_pairs_def)

lemma emit_cases:
  assumes "gen_inv st" "nodash a"
  shows "((a, b) \<in> set (edge_pairs (fst st)) \<and> emit d (a, b) st = st) \<or>
         ((a, b) \<notin> set (edge_pairs (fst st)) \<and>
          emit d (a, b) st = (fst st @ [arrow d a b], (snd st)(edgeKey a b := True)))"
  using assms by (cases st) (auto simp: gen_inv_def)

lemma emit_inv:
  assumes "gen_inv st" "nodash a"
  shows "gen_inv (emit d (a, b) st)"
proof -
  from emit_cases[OF assms, of b d] show ?thesis
  proof
    assume "(a, b) \<in> set (edge_pairs (fst st)) \<and> emit d (a, b) st = st"
    with assms show ?thesis by simp
  next
    assume h: "(a, b) \<notin> set (edge_pairs (fst st)) \<and>
          emit d (a, b) st = (fst st @ [arrow d a b], (snd st)(edgeKey a b := True))"
    have "edgeKey a' b' = edgeKey a b \<longleftrightarrow> (a', b') = (a, b)" if "nodash a'" for a' b'
      using edgeKey_inj[OF that assms(2)] by auto
    with h assms(1) show ?thesis by (auto simp: gen_inv_def)
  qed
qed

lemma emits_char:
  assumes "gen_inv st" "\<forall>(a, b)\<in>set rs. nodash a"
  shows "\<exists>ext. fst (fold (emit d) rs st) = fst st @ ext \<and>
           gen_inv (fold (emit d) rs st) \<and>
           (\<forall>l\<in>set ext. \<exists>(a, b)\<in>set rs. l = arrow d a b \<and> (a, b) \<notin> set (edge_pairs (fst st))) \<and>
           set (edge_pairs (fst (fold (emit d) rs st))) = set (edge_pairs (fst st)) \<union> set rs"
  using assms
proof (induction rs arbitrary: st)
  case Nil
  then show ?case by simp
next
  case (Cons r rs)
  obtain a b where r: "r = (a, b)" by (cases r)
  with Cons.prems have nd: "nodash a" and rest: "\<forall>(a, b)\<in>set rs. nodash a" by auto
  let ?st1 = "emit d (a, b) st"
  have ginv1: "gen_inv ?st1" using emit_inv[OF Cons.prems(1) nd] .
  from Cons.IH[OF ginv1 rest] obtain ext where
    e1: "fst (fold (emit d) rs ?st1) = fst ?st1 @ ext" and
    e2: "gen_inv (fold (emit d) rs ?st1)" and
    e3: "\<forall>l\<in>set ext. \<exists>(a, b)\<in>set rs. l = arrow d a b \<and> (a, b) \<notin> set (edge_pairs (fst ?st1))" and
    e4: "set (edge_pairs (fst (fold (emit d) rs ?st1))) = set (edge_pairs (fst ?st1)) \<union> set rs"
    by blast
  from emit_cases[OF Cons.prems(1) nd, of b d] show ?case
  proof
    assume h: "(a, b) \<in> set (edge_pairs (fst st)) \<and> emit d (a, b) st = st"
    show ?thesis
      apply (rule exI[of _ ext])
      using h e1 e2 e3 e4 r by auto
  next
    assume h: "(a, b) \<notin> set (edge_pairs (fst st)) \<and>
          emit d (a, b) st = (fst st @ [arrow d a b], (snd st)(edgeKey a b := True))"
    show ?thesis
      apply (rule exI[of _ "arrow d a b # ext"])
      using h e1 e2 e3 e4 r by (auto simp: case_prod_beta) 
  qed
qed


lemma fold_upd_nodash:
  assumes "\<And>k v. m0 k = Some v \<Longrightarrow> nodash v"
      and "fold (\<lambda>(nodeKey, nodeInfo) m. m(nodeKey \<mapsto> ''N_'' @ escapeID nodeKey)) xs m0 k = Some v"
  shows "nodash v"
  using assms
proof (induction xs arbitrary: m0)
  case Nil
  then show ?case by simp
next
  case (Cons x xs)
  obtain nk ni where x: "x = (nk, ni)" by (cases x)
  have n: "nodash (''N_'' @ escapeID nk)"
    using escapeID_nodash[of nk] by (simp add: nodash_def)
  show ?case
  proof (rule Cons.IH[of "m0(nk \<mapsto> ''N_'' @ escapeID nk)"])
    fix k' v' assume "(m0(nk \<mapsto> ''N_'' @ escapeID nk)) k' = Some v'"
    then show "nodash v'" using n Cons.prems(1) by (auto split: if_splits)
  next
    show "fold (\<lambda>(nodeKey, nodeInfo) m. m(nodeKey \<mapsto> ''N_'' @ escapeID nodeKey)) xs
            (m0(nk \<mapsto> ''N_'' @ escapeID nk)) k = Some v"
      using Cons.prems(2) x by (simp del: fun_upd_apply)
  qed
qed

lemma idMap_nodash: "idMap info k = Some v \<Longrightarrow> nodash v"
proof -
  assume a: "idMap info k = Some v"
  show ?thesis
  proof (cases "k = ''end'' \<or> k = ''start''")
    case True
    with a show ?thesis by (auto simp: idMap_def nodash_def split: if_splits)
  next
    case False
    with a have "fold (\<lambda>(nodeKey, nodeInfo) m. m(nodeKey \<mapsto> ''N_'' @ escapeID nodeKey)) (Nodes info) Map.empty k = Some v"
      by (simp add: idMap_def)
    then show ?thesis by (rule fold_upd_nodash[rotated]) simp
  qed
qed

lemma requests_mem:
  "(a, b) \<in> set (requests m from toList) \<longleftrightarrow> (m from = Some a \<and> (\<exists>to\<in>set toList. m to = Some b))"
  by (cases "m from") (auto simp: requests_def split: option.splits intro: sym)

lemma edgeRequests_mem:
  "(a, b) \<in> set (edgeRequests m edges) \<longleftrightarrow>
   (\<exists>from to. hasEdge edges from to \<and> m from = Some a \<and> m to = Some b)"
  by (auto simp: edgeRequests_def hasEdge_def list_ex_iff requests_mem) 

lemma edgeRequests_nodash:
  "\<forall>(a, b)\<in>set (edgeRequests (idMap info) edges). nodash a"
  using idMap_nodash by (auto simp: edgeRequests_mem)

lemma branchRequests_nodash:
  "\<forall>(a, b)\<in>set (branchRequests (idMap info) branches). nodash a"
  using idMap_nodash by (auto simp: branchRequests_def requests_mem)

lemma edge_pairs_header [simp]: "edge_pairs (header info) = []"
  by (simp add: header_def edge_pairs_def nodeLine_def split_def o_def concat_map_Nil)

lemma gen_inv_init: "gen_inv (header info, \<lambda>key. False)"
  by (simp add: gen_inv_def)

lemma writes_phases:
  "\<exists>e1 e2 e3.
     writes info = header info @ e1 @ e2 @ e3 \<and>
     distinct (edge_pairs (writes info)) \<and>
     set (edge_pairs e1) = set (edgeRequests (idMap info) (Edges info)) \<and>
     (\<forall>l\<in>set e1. \<exists>(a, b)\<in>set (edgeRequests (idMap info) (Edges info)). l = Solid a b) \<and>
     set (edge_pairs (e1 @ e2)) =
       set (edgeRequests (idMap info) (Edges info)) \<union> set (edgeRequests (idMap info) (DataEdges info)) \<and>
     (\<forall>l\<in>set e2. \<exists>(a, b)\<in>set (edgeRequests (idMap info) (DataEdges info)).
         l = Dashed a b \<and> (a, b) \<notin> set (edgeRequests (idMap info) (Edges info))) \<and>
     (\<forall>l\<in>set e3. \<exists>(a, b)\<in>set (branchRequests (idMap info) (Branches info)).
         l = Solid a b \<and> (a, b) \<notin> set (edge_pairs (e1 @ e2)))"
proof -
  let ?m = "idMap info"
  let ?R1 = "edgeRequests ?m (Edges info)"
  let ?R2 = "edgeRequests ?m (DataEdges info)"
  let ?R3 = "branchRequests ?m (Branches info)"
  let ?st0 = "(header info, \<lambda>key::string. False)"
  let ?st1 = "fold (emit False) ?R1 ?st0"
  let ?st2 = "fold (emit True) ?R2 ?st1"
  let ?st3 = "fold (emit False) ?R3 ?st2"
  have w: "writes info = fst ?st3"
    by (simp add: writes_def Let_def header_def controlEdges_requests dataEdges_requests
          branchEdges_requests)
  from emits_char[OF gen_inv_init[of info] edgeRequests_nodash[of info "Edges info"], where d=False]
  obtain e1 where
    a1: "fst ?st1 = header info @ e1" and a2: "gen_inv ?st1" and
    a3: "\<forall>l\<in>set e1. \<exists>(a, b)\<in>set ?R1. l = arrow False a b \<and> (a, b) \<notin> set (edge_pairs (fst ?st0))" and
    a4: "set (edge_pairs (fst ?st1)) = set (edge_pairs (fst ?st0)) \<union> set ?R1"
    by auto
  from emits_char[OF a2 edgeRequests_nodash[of info "DataEdges info"], where d=True]
  obtain e2 where
    b1: "fst ?st2 = fst ?st1 @ e2" and b2: "gen_inv ?st2" and
    b3: "\<forall>l\<in>set e2. \<exists>(a, b)\<in>set ?R2. l = arrow True a b \<and> (a, b) \<notin> set (edge_pairs (fst ?st1))" and
    b4: "set (edge_pairs (fst ?st2)) = set (edge_pairs (fst ?st1)) \<union> set ?R2"
    by auto
  from emits_char[OF b2 branchRequests_nodash[of info "Branches info"], where d=False]
  obtain e3 where
    c1: "fst ?st3 = fst ?st2 @ e3" and c2: "gen_inv ?st3" and
    c3: "\<forall>l\<in>set e3. \<exists>(a, b)\<in>set ?R3. l = arrow False a b \<and> (a, b) \<notin> set (edge_pairs (fst ?st2))" and
    c4: "set (edge_pairs (fst ?st3)) = set (edge_pairs (fst ?st2)) \<union> set ?R3"
    by auto
  have p1: "set (edge_pairs e1) = set ?R1" using a1 a4 by simp
  have p12: "set (edge_pairs (e1 @ e2)) = set ?R1 \<union> set ?R2" using a1 b1 b4 p1 by simp
  have "writes info = header info @ e1 @ e2 @ e3" using w a1 b1 c1 by simp
  moreover have "distinct (edge_pairs (writes info))" using w c2 by (simp add: gen_inv_def)
  moreover have "\<forall>l\<in>set e1. \<exists>(a, b)\<in>set ?R1. l = Solid a b"
    using a3 by (fastforce simp: arrow_def)
  moreover have "\<forall>l\<in>set e2. \<exists>(a, b)\<in>set ?R2. l = Dashed a b \<and> (a, b) \<notin> set ?R1"
    using b3 a1 p1 by (fastforce simp: arrow_def)
  moreover have "\<forall>l\<in>set e3. \<exists>(a, b)\<in>set ?R3. l = Solid a b \<and> (a, b) \<notin> set (edge_pairs (e1 @ e2))"
    using c3 a1 b1 by (fastforce simp: arrow_def)
  ultimately show ?thesis using p1 p12 by blast
qed

subsection \<open>The two generator functions agree\<close>

lemma escapeID_v2_eq: "escapeID_v2 = escapeID"
  by (simp add: fun_eq_iff escapeID_v2_def escapeID_def replacerTable_v2_def replacerTable_def)

lemma edgeKey_v2_eq: "edgeKey_v2 = edgeKey"
  by (simp add: fun_eq_iff edgeKey_v2_def edgeKey_def)

lemma idMap_v2_eq: "idMap_v2 = idMap"
  by (simp add: fun_eq_iff idMap_v2_def idMap_def escapeID_v2_eq)

lemma nodeLine_v2_eq: "nodeLine_v2 = nodeLine"
  by (simp add: fun_eq_iff nodeLine_v2_def nodeLine_def)

lemma solidStep_v2_eq: "solidStep_v2 = solidStep"
  by (simp add: fun_eq_iff edgeKey_v2_eq split: option.splits)

lemma dashedStep_v2_eq: "dashedStep_v2 = dashedStep"
  by (simp add: fun_eq_iff edgeKey_v2_eq split: option.splits)

lemma controlEdges_v2_eq: "controlEdges_v2 = controlEdges"
  unfolding fun_eq_iff controlEdges_v2_def controlEdges_def solidStep_v2_eq by simp

lemma dataEdges_v2_eq: "dataEdges_v2 = dataEdges"
  unfolding fun_eq_iff dataEdges_v2_def dataEdges_def dashedStep_v2_eq by simp

lemma branchEdges_v2_eq: "branchEdges_v2 = branchEdges"
  unfolding fun_eq_iff branchEdges_v2_def branchEdges_def solidStep_v2_eq by simp

lemma writes_v2_eq: "writes_v2 info = writes info"
  unfolding writes_v2_def writes_def idMap_v2_eq nodeLine_v2_eq controlEdges_v2_eq
    dataEdges_v2_eq branchEdges_v2_eq
  by (rule refl)

lemma endpoints_in_pairs: "l \<in> set buf \<Longrightarrow> endpoints l = [p] \<Longrightarrow> p \<in> set (edge_pairs buf)"
proof -
  assume "l \<in> set buf" "endpoints l = [p]"
  then have "\<exists>k\<in>set buf. p \<in> set (endpoints k)" by (intro bexI[of _ l]) simp_all
  then show ?thesis by (simp add: edge_pairs_mem)
qed

subsection \<open>Lines written, counted\<close>

lemma count_one:
  assumes "distinct (edge_pairs buf)" "l \<in> set buf" "endpoints l = [p]"
  shows "count_list buf l = 1"
  using assms
proof (induction buf)
  case Nil
  then show ?case by simp
next
  case (Cons x xs)
  show ?case
  proof (cases "x = l")
    case True
    have "l \<notin> set xs"
    proof
      assume "l \<in> set xs"
      then have "p \<in> set (edge_pairs xs)" using Cons.prems(3) by (rule endpoints_in_pairs)
      with Cons.prems(1,3) True show False by (simp add: edge_pairs_def)
    qed
    then have "count_list xs l = 0" by (simp add: count_list_0_iff)
    with True show ?thesis by simp
  next
    case False
    with Cons.prems have "l \<in> set xs" "distinct (edge_pairs xs)"
      by (auto simp: edge_pairs_def)
    with Cons.IH Cons.prems(3) False show ?thesis by simp
  qed
qed

lemma same_pair_same_line:
  assumes "distinct (edge_pairs buf)" "l \<in> set buf" "l' \<in> set buf"
          "endpoints l = [p]" "endpoints l' = [p]"
  shows "l = l'"
  using assms
proof (induction buf)
  case Nil
  then show ?case by simp
next
  case (Cons x xs)
  have d: "distinct (edge_pairs xs)" and dis: "set (endpoints x) \<inter> set (edge_pairs xs) = {}"
    using Cons.prems(1) by (auto simp: edge_pairs_def)
  have in_xs: "p \<in> set (edge_pairs xs)" if "k \<in> set xs" "endpoints k = [p]" for k
    using that by (rule endpoints_in_pairs)
  show ?case
  proof (cases "l \<in> set xs \<and> l' \<in> set xs")
    case True
    with Cons.IH d Cons.prems(4,5) show ?thesis by simp
  next
    case False
    then consider "l = x" "l' = x" | "l = x" "l' \<in> set xs" | "l' = x" "l \<in> set xs"
      using Cons.prems(2,3) by auto
    then show ?thesis
    proof cases
      case 1
      then show ?thesis by simp
    next
      case 2
      with in_xs[of l'] Cons.prems(4,5) dis show ?thesis by auto
    next
      case 3
      with in_xs[of l] Cons.prems(4,5) dis show ?thesis by auto
    qed
  qed
qed

lemma String_sublist: "l \<in> set buf \<Longrightarrow> sublist (render l) (String buf)"
proof -
  assume "l \<in> set buf"
  then obtain xs ys where "buf = xs @ l # ys" by (auto simp: in_set_conv_decomp)
  then have "String buf = String xs @ render l @ String ys" by (simp add: String_def)
  then show ?thesis unfolding sublist_def by blast
qed

lemma distinct_writes: "distinct (edge_pairs (writes info))"
  using writes_phases[of info] by blast

lemma solid_written:
  assumes "(a, b) \<in> set (controlPairs info)"
  shows "Solid a b \<in> set (writes info)"
proof -
  from writes_phases[of info] obtain e1 e2 e3 where
    w: "writes info = header info @ e1 @ e2 @ e3" and
    p: "set (edge_pairs e1) = set (edgeRequests (idMap info) (Edges info))" and
    s: "\<forall>l\<in>set e1. \<exists>(a, b)\<in>set (edgeRequests (idMap info) (Edges info)). l = Solid a b"
    by blast
  from assms p have "(a, b) \<in> set (edge_pairs e1)" by (simp add: controlPairs_def)
  then obtain l where l: "l \<in> set e1" "(a, b) \<in> set (endpoints l)"
    by (auto simp: edge_pairs_mem)
  with s have "l = Solid a b" by fastforce
  with l w show ?thesis by simp
qed

lemma dashed_written:
  assumes "(a, b) \<in> set (edgeRequests (idMap info) (DataEdges info))"
      and "(a, b) \<notin> set (controlPairs info)"
  shows "Dashed a b \<in> set (writes info)"
proof -
  from writes_phases[of info] obtain e1 e2 e3 where
    w: "writes info = header info @ e1 @ e2 @ e3" and
    p1: "set (edge_pairs e1) = set (edgeRequests (idMap info) (Edges info))" and
    p12: "set (edge_pairs (e1 @ e2)) =
            set (edgeRequests (idMap info) (Edges info)) \<union> set (edgeRequests (idMap info) (DataEdges info))" and
    s: "\<forall>l\<in>set e2. \<exists>(a, b)\<in>set (edgeRequests (idMap info) (DataEdges info)).
           l = Dashed a b \<and> (a, b) \<notin> set (edgeRequests (idMap info) (Edges info))"
    by blast
  from assms p1 p12 have "(a, b) \<in> set (edge_pairs e2)" by (auto simp: controlPairs_def)
  then obtain l where l: "l \<in> set e2" "(a, b) \<in> set (endpoints l)"
    by (auto simp: edge_pairs_mem)
  with s have "l = Dashed a b" by fastforce
  with l w show ?thesis by simp
qed

lemma dashed_suppressed:
  assumes "(a, b) \<in> set (controlPairs info)"
  shows "Dashed a b \<notin> set (writes info)"
proof
  assume "Dashed a b \<in> set (writes info)"
  from same_pair_same_line[OF distinct_writes this solid_written[OF assms]]
  show False by simp
qed

lemma String_header:
  "prefix ''graph TD\<newline>    StartNode([Start])\<newline>    EndNode([End])\<newline>'' (String (header info @ rest))"
  by (simp add: String_def header_def)

lemma writes_header: "\<exists>rest. writes info = header info @ rest"
  using writes_phases[of info] by blast

subsection \<open>Sample graphs, evaluated\<close>

lemma idMap_chainInfo:
  "idMap chainInfo ''start'' = Some ''StartNode''" "idMap chainInfo ''end'' = Some ''EndNode''"
  "idMap chainInfo ''node_1'' = Some ''N_node_1''" "idMap chainInfo ''node_3'' = Some ''N_node_3''"
  by (simp_all add: idMap_def chainInfo_def escapeID_def replacerTable_def)

lemma writes_bothInfo:
  "writes bothInfo =
     [Raw ''graph TD\<newline>'', Raw ''    StartNode([Start])\<newline>'', Raw ''    EndNode([End])\<newline>'',
      Raw ''\<newline>'', Solid ''StartNode'' ''EndNode'']"
  by (simp add: writes_def bothInfo_def idMap_def controlEdges_def dataEdges_def
        branchEdges_def edgeKey_def)

subsection \<open>Claims about the generator\<close>

text \<open>
  C1, as amended. For every \<open>GraphInfo\<close>, the string returned by
  \<open>GenerateMermaidFlowchart\<close> begins with the line \<open>graph TD\<close> followed by the
  declarations \<open>StartNode([Start])\<close> and \<open>EndNode([End])\<close>; for every control-flow
  edge of \<open>info.Edges\<close> whose endpoints are known (both have a Mermaid identifier)
  exactly one solid arrow line between the two identifiers is written, and it is part of
  the returned string; for every data edge of \<open>info.DataEdges\<close> whose endpoints are
  known and whose pair of identifiers is not the pair of a control-flow edge, exactly one
  dashed arrow line between the two identifiers is written, and it is part of the
  returned string.
\<close>

theorem GenerateMermaidFlowchart_lines:
  "prefix ''graph TD\<newline>    StartNode([Start])\<newline>    EndNode([End])\<newline>''
          (GenerateMermaidFlowchart info) \<and>
   (\<forall>from to a b.
      hasEdge (Edges info) from to \<and> idMap info from = Some a \<and> idMap info to = Some b \<longrightarrow>
      count_list (writes info) (Solid a b) = 1 \<and>
      sublist (''    '' @ a @ '' --> '' @ b @ ''\<newline>'') (GenerateMermaidFlowchart info)) \<and>
   (\<forall>from to a b.
      hasEdge (DataEdges info) from to \<and> idMap info from = Some a \<and> idMap info to = Some b \<and>
      (a, b) \<notin> set (controlPairs info) \<longrightarrow>
      count_list (writes info) (Dashed a b) = 1 \<and>
      sublist (''    '' @ a @ '' -.-> '' @ b @ ''\<newline>'') (GenerateMermaidFlowchart info))"
proof (intro conjI allI impI)
  from writes_header[of info] obtain rest where "writes info = header info @ rest" ..
  then show "prefix ''graph TD\<newline>    StartNode([Start])\<newline>    EndNode([End])\<newline>''
               (GenerateMermaidFlowchart info)"
    using String_header[of info rest] by (simp add: GenerateMermaidFlowchart_def)
next
  fix "from" to a b
  assume "hasEdge (Edges info) from to \<and> idMap info from = Some a \<and> idMap info to = Some b"
  then have "(a, b) \<in> set (controlPairs info)"
    by (auto simp: controlPairs_def edgeRequests_mem)
  then have w: "Solid a b \<in> set (writes info)" by (rule solid_written)
  show "count_list (writes info) (Solid a b) = 1"
    using count_one[OF distinct_writes w] by simp
  show "sublist (''    '' @ a @ '' --> '' @ b @ ''\<newline>'') (GenerateMermaidFlowchart info)"
    using String_sublist[OF w] by (simp add: GenerateMermaidFlowchart_def)
next
  fix "from" to a b
  assume h: "hasEdge (DataEdges info) from to \<and> idMap info from = Some a \<and> idMap info to = Some b \<and>
             (a, b) \<notin> set (controlPairs info)"
  then have "(a, b) \<in> set (edgeRequests (idMap info) (DataEdges info))"
    by (auto simp: edgeRequests_mem)
  with h have w: "Dashed a b \<in> set (writes info)" by (auto intro: dashed_written)
  show "count_list (writes info) (Dashed a b) = 1"
    using count_one[OF distinct_writes w] by simp
  show "sublist (''    '' @ a @ '' -.-> '' @ b @ ''\<newline>'') (GenerateMermaidFlowchart info)"
    using String_sublist[OF w] by (simp add: GenerateMermaidFlowchart_def)
qed

text \<open>
  The theorem at the chain graph of the repository's test, with the data edge
  \<open>node_1 \<rightarrow> node_3\<close>: the control edge \<open>start \<rightarrow> node_1\<close> and the data edge each
  have their line.
\<close>

theorem GenerateMermaidFlowchart_lines_witness:
  "hasEdge (Edges chainInfo) ''start'' ''node_1'' \<and>
   hasEdge (DataEdges chainInfo) ''node_1'' ''node_3'' \<and>
   (''N_node_1'', ''N_node_3'') \<notin> set (controlPairs chainInfo) \<and>
   count_list (writes chainInfo) (Solid ''StartNode'' ''N_node_1'') = 1 \<and>
   count_list (writes chainInfo) (Dashed ''N_node_1'' ''N_node_3'') = 1 \<and>
   sublist ''    N_node_1 -.-> N_node_3\<newline>'' (GenerateMermaidFlowchart chainInfo)"
proof -
  have e: "hasEdge (Edges chainInfo) ''start'' ''node_1''"
    and d: "hasEdge (DataEdges chainInfo) ''node_1'' ''node_3''"
    by (simp_all add: hasEdge_def chainInfo_def)
  have n: "(''N_node_1'', ''N_node_3'') \<notin> set (controlPairs chainInfo)"
    by (simp add: controlPairs_def edgeRequests_def requests_def idMap_def chainInfo_def
          escapeID_def replacerTable_def)
  note t = GenerateMermaidFlowchart_lines[of chainInfo]
  from t e idMap_chainInfo
  have 1: "count_list (writes chainInfo) (Solid ''StartNode'' ''N_node_1'') = 1" by blast
  from t d n idMap_chainInfo
  have 2: "count_list (writes chainInfo) (Dashed ''N_node_1'' ''N_node_3'') = 1 \<and>
           sublist (''    '' @ ''N_node_1'' @ '' -.-> '' @ ''N_node_3'' @ ''\<newline>'')
             (GenerateMermaidFlowchart chainInfo)" by blast
  from e d n 1 2 show ?thesis by simp
qed

text \<open>
  C1 as stated fails where a data edge has the endpoints of a control-flow edge: for the
  graph with the control edge \<open>start \<rightarrow> end\<close> and the data edge \<open>start \<rightarrow> end\<close>, both
  endpoints known, no dashed line is written; the returned string is the one below. The
  graph is well formed (no key twice in a map).
\<close>

theorem GenerateMermaidFlowchart_dashed_counterexample:
  "wf_GraphInfo bothInfo \<and> hasEdge (DataEdges bothInfo) ''start'' ''end'' \<and>
   idMap bothInfo ''start'' = Some ''StartNode'' \<and> idMap bothInfo ''end'' = Some ''EndNode'' \<and>
   count_list (writes bothInfo) (Dashed ''StartNode'' ''EndNode'') = 0 \<and>
   GenerateMermaidFlowchart bothInfo =
     ''graph TD\<newline>    StartNode([Start])\<newline>    EndNode([End])\<newline>\<newline>    StartNode --> EndNode\<newline>''"
  by (simp add: writes_bothInfo GenerateMermaidFlowchart_def String_def)
     (simp add: hasEdge_def bothInfo_def idMap_def wf_GraphInfo_def)

text \<open>
  C2. For every \<open>GraphInfo\<close> (with the same iteration order of its maps), the
  \<open>GenerateMermaidFlowchart\<close> of \<open>compose/graph_mermaid.go\<close> and the one of the second
  generator file return the same string.
\<close>

theorem GenerateMermaidFlowchart_v2_eq:
  "GenerateMermaidFlowchart_v2 info = GenerateMermaidFlowchart info"
  by (simp add: GenerateMermaidFlowchart_v2_def GenerateMermaidFlowchart_def writes_v2_eq)

text \<open>
  The theorem at the chain graph: both functions return the string below.
\<close>

theorem GenerateMermaidFlowchart_v2_eq_witness:
  "GenerateMermaidFlowchart_v2 chainInfo = GenerateMermaidFlowchart chainInfo \<and>
   GenerateMermaidFlowchart chainInfo = String
     [Raw ''graph TD\<newline>'', Raw ''    StartNode([Start])\<newline>'', Raw ''    EndNode([End])\<newline>'',
      NodeLine ''N_node_1'' ''node_1'' ''Lambda'', NodeLine ''N_node_2'' ''node_2'' ''Lambda'',
      NodeLine ''N_node_3'' ''node_3'' ''Lambda'', Raw ''\<newline>'',
      Solid ''StartNode'' ''N_node_1'', Solid ''N_node_1'' ''N_node_2'',
      Solid ''N_node_2'' ''N_node_3'', Solid ''N_node_3'' ''EndNode'',
      Dashed ''N_node_1'' ''N_node_3'']"
proof -
  have "writes chainInfo =
     [Raw ''graph TD\<newline>'', Raw ''    StartNode([Start])\<newline>'', Raw ''    EndNode([End])\<newline>'',
      NodeLine ''N_node_1'' ''node_1'' ''Lambda'', NodeLine ''N_node_2'' ''node_2'' ''Lambda'',
      NodeLine ''N_node_3'' ''node_3'' ''Lambda'', Raw ''\<newline>'',
      Solid ''StartNode'' ''N_node_1'', Solid ''N_node_1'' ''N_node_2'',
      Solid ''N_node_2'' ''N_node_3'', Solid ''N_node_3'' ''EndNode'',
      Dashed ''N_node_1'' ''N_node_3'']"
    by (simp add: writes_def chainInfo_def idMap_def nodeLine_def controlEdges_def dataEdges_def
          branchEdges_def edgeKey_def escapeID_def replacerTable_def)
  then show ?thesis
    using GenerateMermaidFlowchart_v2_eq[of chainInfo] by (simp add: GenerateMermaidFlowchart_def)
qed

text \<open>
  C6. For every \<open>GraphInfo\<close>, no two arrow lines written by \<open>GenerateMermaidFlowchart\<close>
  (solid lines of control-flow edges, dashed lines of data edges, solid lines of
  branches) have the same pair of endpoints, in either generator file; and when a pair
  \<open>(from, to)\<close> with known endpoints is in \<open>info.Edges\<close> and in \<open>info.DataEdges\<close>, its
  solid line is written once and its dashed line is not written.
\<close>

theorem GenerateMermaidFlowchart_no_duplicate_edges:
  "distinct (edge_pairs (writes info)) \<and> distinct (edge_pairs (writes_v2 info)) \<and>
   (\<forall>from to a b.
      hasEdge (Edges info) from to \<and> hasEdge (DataEdges info) from to \<and>
      idMap info from = Some a \<and> idMap info to = Some b \<longrightarrow>
      count_list (writes info) (Solid a b) = 1 \<and> count_list (writes info) (Dashed a b) = 0)"
proof (intro conjI allI impI)
  show "distinct (edge_pairs (writes info))" by (rule distinct_writes)
  then show "distinct (edge_pairs (writes_v2 info))" by (simp add: writes_v2_eq)
next
  fix "from" to a b
  assume "hasEdge (Edges info) from to \<and> hasEdge (DataEdges info) from to \<and>
          idMap info from = Some a \<and> idMap info to = Some b"
  then have c: "(a, b) \<in> set (controlPairs info)"
    by (auto simp: controlPairs_def edgeRequests_mem)
  show "count_list (writes info) (Solid a b) = 1"
    using count_one[OF distinct_writes solid_written[OF c]] by simp
  show "count_list (writes info) (Dashed a b) = 0"
    using dashed_suppressed[OF c] by (simp add: count_list_0_iff)
qed

text \<open>The theorem at the graph with \<open>start \<rightarrow> end\<close> as control edge and as data edge.\<close>

theorem GenerateMermaidFlowchart_no_duplicate_edges_witness:
  "hasEdge (Edges bothInfo) ''start'' ''end'' \<and> hasEdge (DataEdges bothInfo) ''start'' ''end'' \<and>
   edge_pairs (writes bothInfo) = [(''StartNode'', ''EndNode'')] \<and>
   count_list (writes bothInfo) (Solid ''StartNode'' ''EndNode'') = 1 \<and>
   count_list (writes bothInfo) (Dashed ''StartNode'' ''EndNode'') = 0"
proof -
  have e: "hasEdge (Edges bothInfo) ''start'' ''end''"
    and d: "hasEdge (DataEdges bothInfo) ''start'' ''end''"
    by (simp_all add: hasEdge_def bothInfo_def)
  have i: "idMap bothInfo ''start'' = Some ''StartNode''" "idMap bothInfo ''end'' = Some ''EndNode''"
    by (simp_all add: idMap_def bothInfo_def)
  from GenerateMermaidFlowchart_no_duplicate_edges[of bothInfo] e d i
  have "count_list (writes bothInfo) (Solid ''StartNode'' ''EndNode'') = 1 \<and>
        count_list (writes bothInfo) (Dashed ''StartNode'' ''EndNode'') = 0" by blast
  moreover have "edge_pairs (writes bothInfo) = [(''StartNode'', ''EndNode'')]"
    by (simp add: writes_bothInfo edge_pairs_def)
  ultimately show ?thesis using e d by simp
qed

section \<open>Proofs: run sessions\<close>

subsection \<open>The loop of \<open>replaceInterruptRunCtx\<close> is a filter\<close>

lemma replaceLoop_filter:
  "replaceLoop c i xs =
   take i xs @ filter (\<lambda>r. \<not> belongToRunPath (RunPath c) (RunPath r)) (drop i xs)"
proof (induction c i xs rule: replaceLoop.induct)
  case (1 c i xs)
  show ?case
  proof (cases "i < length xs")
    case False
    then show ?thesis by (subst replaceLoop.simps) simp
  next
    case inside: True
    then have d: "drop i xs = xs ! i # drop (Suc i) xs" by (simp add: Cons_nth_drop_Suc)
    show ?thesis
    proof (cases "belongToRunPath (RunPath c) (RunPath (xs ! i))")
      case True
      with inside 1(1) d show ?thesis
        by (subst replaceLoop.simps) (simp add: min_def)
    next
      case False
      with inside 1(2) d show ?thesis
        by (subst replaceLoop.simps) (simp add: take_Suc_conv_app_nth)
    qed
  qed
qed

lemma runSession_replaceInterruptRunCtx_filter:
  "interruptRunCtxs (runSession_replaceInterruptRunCtx rs c) =
   filter (\<lambda>r. \<not> belongToRunPath (RunPath c) (RunPath r)) (interruptRunCtxs rs) @ [c]"
  by (simp add: runSession_replaceInterruptRunCtx_def replaceLoop_filter)

lemma belongToRunPath_prefix: "belongToRunPath a b \<longleftrightarrow> prefix a b"
proof
  assume h: "belongToRunPath a b"
  then have l: "length a \<le> length b" by (simp add: belongToRunPath_def split: if_splits)
  from h l have n: "\<forall>i<length a. b ! i = a ! i"
    by (simp add: belongToRunPath_def list_all_iff)
  have "take (length a) b = a"
    using l n by (intro nth_equalityI) simp_all
  then show "prefix a b" by (metis take_is_prefix)
next
  assume "prefix a b"
  then obtain zs where "b = a @ zs" by (auto simp: prefix_def)
  then show "belongToRunPath a b"
    by (simp add: belongToRunPath_def list_all_iff nth_append)
qed

subsection \<open>Copying a table\<close>

lemma fold_update_map_of:
  "distinct (map fst es) \<Longrightarrow>
   map_of (fold (\<lambda>(k, v) al. AList.update k v al) es al) = map_of al ++ map_of es"
proof (induction es arbitrary: al)
  case Nil
  then show ?case by simp
next
  case (Cons e es)
  obtain k v where e: "e = (k, v)" by (cases e)
  with Cons.prems have d: "distinct (map fst es)" by simp
  from e Cons.prems have "k \<notin> fst ` set es" by simp
  then have k: "k \<notin> dom (map_of es)" by (simp add: dom_map_of_conv_image_fst)
  have "map_of (fold (\<lambda>(k, v) al. AList.update k v al) (e # es) al) =
        map_of (AList.update k v al) ++ map_of es"
    using Cons.IH[OF d, of "AList.update k v al"] e by simp
  also have "\<dots> = (map_of al)(k \<mapsto> v) ++ map_of es"
    by (simp only: update_conv')
  also have "\<dots> = (map_of al ++ map_of es)(k \<mapsto> v)"
    using k by (rule map_add_upd_left)
  also have "\<dots> = map_of al ++ map_of (e # es)"
    using e by (simp del: fun_upd_apply)
  finally show ?case .
qed

lemma copyEntries_Cons:
  "copyEntries r ((k, v) # es) st =
   copyEntries r es (st\<lparr>tables := (tables st)(r := AList.update k v (tables st r))\<rparr>)"
  by (simp add: copyEntries_def)

lemma copyEntries_Nil: "copyEntries r [] st = st"
  by (simp add: copyEntries_def)

lemma copyEntries_tables:
  "tables (copyEntries r es st) =
   (tables st)(r := fold (\<lambda>(k, v) al. AList.update k v al) es (tables st r))"
proof (induction es arbitrary: st)
  case Nil
  then show ?case by (simp add: copyEntries_Nil)
next
  case (Cons e es)
  obtain k v where e: "e = (k, v)" by (cases e)
  show ?case unfolding e copyEntries_Cons Cons.IH by simp
qed

lemma copyEntries_rest:
  "nextMap (copyEntries r es st) = nextMap st"
  "sessions (copyEntries r es st) = sessions st"
  "nextSession (copyEntries r es st) = nextSession st"
proof (induction es arbitrary: st)
  case Nil
  {
    case 1 show ?case by (simp add: copyEntries_Nil)
  next
    case 2 show ?case by (simp add: copyEntries_Nil)
  next
    case 3 show ?case by (simp add: copyEntries_Nil)
  }
next
  case (Cons e es)
  obtain k v where e: "e = (k, v)" by (cases e)
  {
    case 1 show ?case unfolding e copyEntries_Cons Cons.IH by simp
  next
    case 2 show ?case unfolding e copyEntries_Cons Cons.IH by simp
  next
    case 3 show ?case unfolding e copyEntries_Cons Cons.IH by simp
  }
qed

subsection \<open>Claims about run sessions\<close>

text \<open>
  C3, as amended. For every run session and every new run context \<open>c\<close>,
  \<open>replaceInterruptRunCtx\<close> removes from the session's list of interrupted run contexts
  exactly the entries whose run path has the run path of \<open>c\<close> as a prefix (the entries
  at or below \<open>c\<close>), keeps the others in their order, and appends \<open>c\<close> at the end;
  nothing else of the session changes. This holds for the method and for the
  package-level function on a context that carries the session.
\<close>

theorem replaceInterruptRunCtx_removes_extensions:
  "interruptRunCtxs (runSession_replaceInterruptRunCtx rs c) =
     filter (\<lambda>r. \<not> prefix (RunPath c) (RunPath r)) (interruptRunCtxs rs) @ [c] \<and>
   Values (runSession_replaceInterruptRunCtx rs c) = Values rs \<and>
   (getSession ctx = Some a \<longrightarrow>
      interruptRunCtxs (sessions (replaceInterruptRunCtx st ctx c) a) =
        filter (\<lambda>r. \<not> prefix (RunPath c) (RunPath r)) (interruptRunCtxs (sessions st a)) @ [c] \<and>
      tables (replaceInterruptRunCtx st ctx c) = tables st)"
proof -
  have m: "interruptRunCtxs (runSession_replaceInterruptRunCtx rs c) =
             filter (\<lambda>r. \<not> prefix (RunPath c) (RunPath r)) (interruptRunCtxs rs) @ [c]" for rs
    using runSession_replaceInterruptRunCtx_filter[of rs c] by (simp add: belongToRunPath_prefix)
  have "Values (runSession_replaceInterruptRunCtx rs c) = Values rs"
    by (simp add: runSession_replaceInterruptRunCtx_def)
  with m show ?thesis by (simp add: replaceInterruptRunCtx_def)
qed

text \<open>
  The theorem on a session with the five entries \<open>[a]\<close>, \<open>[b]\<close>, \<open>[a, b]\<close>,
  \<open>[a, b, c]\<close>, \<open>[a, c]\<close> and the new run path \<open>[a, b]\<close>: the entries \<open>[a, b]\<close>
  and \<open>[a, b, c]\<close> go, the other three stay in order.
\<close>

theorem replaceInterruptRunCtx_removes_extensions_witness:
  "getSession (RunCtxPtr (Some (rc [''a'', ''b'']))) = Some 0 \<and>
   interruptRunCtxs (sessions (replaceInterruptRunCtx fiveEntries
       (RunCtxPtr (Some (rc [''a'', ''b''])))
       (rc [''a'', ''b''])) 0) =
     [rc [''a''], rc [''b''], rc [''a'', ''c''], rc [''a'', ''b'']]"
proof -
  have g: "getSession (RunCtxPtr (Some (rc [''a'', ''b'']))) = Some 0"
    by (simp add: getSession_def getRunCtx_def rc_def)
  from replaceInterruptRunCtx_removes_extensions[where c = "rc [''a'', ''b'']"
         and ctx = "RunCtxPtr (Some (rc [''a'', ''b'']))" and a = 0 and st = fiveEntries] g
  have "interruptRunCtxs (sessions (replaceInterruptRunCtx fiveEntries
            (RunCtxPtr (Some (rc [''a'', ''b'']))) (rc [''a'', ''b''])) 0) =
        filter (\<lambda>r. \<not> prefix (RunPath (rc [''a'', ''b''])) (RunPath r))
          (interruptRunCtxs (sessions fiveEntries 0)) @ [rc [''a'', ''b'']]"
    by blast
  also have "\<dots> = [rc [''a''], rc [''b''], rc [''a'', ''c''], rc [''a'', ''b'']]"
    by (simp add: rc_def fiveEntries_def emptyStore_def)
  finally show ?thesis using g by simp
qed

text \<open>
  C3 as stated fails on the same session: the entry \<open>[a]\<close>, whose run path is a prefix
  of the new run path \<open>[a, b]\<close>, stays, and the entry \<open>[a, b, c]\<close>, whose run path is
  not a prefix of \<open>[a, b]\<close>, is removed. The claim would leave \<open>[b]\<close>,
  \<open>[a, b, c]\<close>, \<open>[a, c]\<close>, \<open>[a, b]\<close>.
\<close>

theorem replaceInterruptRunCtx_prefix_counterexample:
  "interruptRunCtxs (runSession_replaceInterruptRunCtx (sessions fiveEntries 0) (rc [''a'', ''b''])) =
     [rc [''a''], rc [''b''], rc [''a'', ''c''], rc [''a'', ''b'']] \<and>
   prefix (RunPath (rc [''a''])) (RunPath (rc [''a'', ''b''])) \<and>
   \<not> prefix (RunPath (rc [''a'', ''b'', ''c''])) (RunPath (rc [''a'', ''b''])) \<and>
   filter (\<lambda>r. \<not> prefix (RunPath r) (RunPath (rc [''a'', ''b''])))
       (interruptRunCtxs (sessions fiveEntries 0)) @ [rc [''a'', ''b'']] =
     [rc [''b''], rc [''a'', ''b'', ''c''], rc [''a'', ''c''], rc [''a'', ''b'']]"
  by (simp add: runSession_replaceInterruptRunCtx_filter belongToRunPath_prefix rc_def
        fiveEntries_def emptyStore_def)

text \<open>
  C4. For every run session whose \<open>Values\<close> map was allocated earlier and is well formed,
  \<open>getValues\<close> (and \<open>GetSessionValues\<close> on a context that carries the session) returns a
  new map whose entries equal those of \<open>s.Values\<close> at the time of the call and leaves
  \<open>s.Values\<close> as it was; a later \<open>setValue(k, v)\<close> changes \<open>s.Values\<close> and leaves the
  returned map unchanged; an assignment to the returned map leaves \<open>s.Values\<close>
  unchanged.
\<close>

theorem getValues_snapshot:
  assumes "Values (sessions st a) = Some m" and "m < nextMap st"
      and "distinct (map fst (tables st m))"
  shows "\<exists>st1 r.
           getValues st (Some a) = Inr (st1, Some r) \<and> r \<noteq> m \<and>
           (getSession ctx = Some a \<longrightarrow> GetSessionValues st ctx = Inr (st1, Some r)) \<and>
           map_of (tables st1 r) = map_of (tables st m) \<and>
           tables st1 m = tables st m \<and> sessions st1 = sessions st \<and>
           (\<forall>k v. \<exists>st2. setValue st1 (Some a) k v = Inr st2 \<and>
                     map_of (tables st2 m) = (map_of (tables st m))(k \<mapsto> v) \<and>
                     tables st2 r = tables st1 r) \<and>
           (\<forall>k v. \<exists>st3. mapAssign st1 (Some r) k v = Inr st3 \<and>
                     map_of (tables st3 r) = (map_of (tables st m))(k \<mapsto> v) \<and>
                     tables st3 m = tables st m)"
proof -
  let ?r = "nextMap st"
  let ?st0 = "st\<lparr>tables := (tables st)(?r := []), nextMap := Suc ?r\<rparr>"
  let ?st1 = "copyEntries ?r (tables st m) ?st0"
  from assms(2) have ne: "?r \<noteq> m" by simp
  have g: "getValues st (Some a) = Inr (?st1, Some ?r)"
    using assms(1) ne by (simp add: getValues_def makeMap_def mapEntries_def)
  have mr: "map_of (tables ?st1 ?r) = map_of (tables st m)"
    using assms(3) by (simp add: copyEntries_tables fold_update_map_of)
  have mm: "tables ?st1 m = tables st m"
    using ne by (simp add: copyEntries_tables)
  have ss: "sessions ?st1 = sessions st"
    by (simp add: copyEntries_rest)
  have sv: "\<exists>st2. setValue ?st1 (Some a) k v = Inr st2 \<and>
              map_of (tables st2 m) = (map_of (tables st m))(k \<mapsto> v) \<and>
              tables st2 ?r = tables ?st1 ?r" for k v
    using assms(1) ne ss mm by (simp add: setValue_def mapAssign_def update_conv')
  have ma: "\<exists>st3. mapAssign ?st1 (Some ?r) k v = Inr st3 \<and>
              map_of (tables st3 ?r) = (map_of (tables st m))(k \<mapsto> v) \<and>
              tables st3 m = tables st m" for k v
    using ne mr mm by (simp add: mapAssign_def update_conv')
  have gs: "getSession ctx = Some a \<longrightarrow> GetSessionValues st ctx = Inr (?st1, Some ?r)"
    using g by (simp add: GetSessionValues_def)
  from g ne gs mr mm ss sv ma show ?thesis by blast
qed

text \<open>
  The theorem at the session that \<open>newRunSession\<close> makes in the empty store, after
  \<open>setValue("k", "v")\<close>: the hypotheses hold there, so a snapshot map exists with the
  stated properties.
\<close>

theorem getValues_snapshot_witness:
  "Values (sessions sampleStore 0) = Some 0 \<and> 0 < nextMap sampleStore \<and>
   distinct (map fst (tables sampleStore 0)) \<and>
   tables sampleStore 0 = [(''k'', Some ''v'')] \<and>
   (\<exists>st1 r. getValues sampleStore (Some 0) = Inr (st1, Some r) \<and> r \<noteq> 0 \<and>
       map_of (tables st1 r) = map_of (tables sampleStore 0) \<and>
       (\<exists>st2. setValue st1 (Some 0) ''k'' (Some ''w'') = Inr st2 \<and>
           map_of (tables st2 0) ''k'' = Some (Some ''w'') \<and> tables st2 r = tables st1 r))"
proof -
  have s: "Values (sessions sampleStore 0) = Some 0" "0 < nextMap sampleStore"
    "distinct (map fst (tables sampleStore 0))" "tables sampleStore 0 = [(''k'', Some ''v'')]"
    by (simp_all add: sampleStore_def newRunSession_def makeMap_def emptyStore_def
          setValue_def mapAssign_def)
  from getValues_snapshot[OF s(1,2,3), of NoValue] obtain st1 r where
    g: "getValues sampleStore (Some 0) = Inr (st1, Some r)" "r \<noteq> 0"
       "map_of (tables st1 r) = map_of (tables sampleStore 0)" and
    v: "\<forall>k v. \<exists>st2. setValue st1 (Some 0) k v = Inr st2 \<and>
                map_of (tables st2 0) = (map_of (tables sampleStore 0))(k \<mapsto> v) \<and>
                tables st2 r = tables st1 r"
    by blast
  from v obtain st2 where
    "setValue st1 (Some 0) ''k'' (Some ''w'') = Inr st2"
    "map_of (tables st2 0) = (map_of (tables sampleStore 0))(''k'' \<mapsto> Some ''w'')"
    "tables st2 r = tables st1 r"
    by blast
  then have "\<exists>st2. setValue st1 (Some 0) ''k'' (Some ''w'') = Inr st2 \<and>
           map_of (tables st2 0) ''k'' = Some (Some ''w'') \<and> tables st2 r = tables st1 r"
    by simp
  with g s show ?thesis by blast
qed

text \<open>
  C10. For every context that carries no run context, no session is found, and the three
  public accessors return without a panic: \<open>GetSessionValues\<close> returns a new, empty,
  non-nil map and changes nothing else in the store, \<open>GetSessionValue\<close> returns
  \<open>(nil, false)\<close>, and \<open>SetSessionValue\<close> returns with the store unchanged.
\<close>

theorem accessors_without_run_context:
  assumes "getRunCtx ctx = None"
  shows "getSession ctx = None \<and>
         (\<exists>st1. GetSessionValues st ctx = Inr (st1, Some (nextMap st)) \<and>
            tables st1 (nextMap st) = [] \<and>
            (\<forall>b. b < nextMap st \<longrightarrow> tables st1 b = tables st b) \<and>
            sessions st1 = sessions st) \<and>
         GetSessionValue st ctx key = Inr (None, False) \<and>
         SetSessionValue st ctx key val = Inr st"
  using assms
  by (simp add: getSession_def GetSessionValues_def GetSessionValue_def SetSessionValue_def
        makeMap_def)

text \<open>The theorem at the context that \<open>ClearRunCtx\<close> returns, on the sample store.\<close>

theorem accessors_without_run_context_witness:
  "getRunCtx (ClearRunCtx (RunCtxPtr (Some (rc [''a''])))) = None \<and>
   (\<exists>st1. GetSessionValues sampleStore (ClearRunCtx (RunCtxPtr (Some (rc [''a''])))) = Inr (st1, Some 1) \<and>
      tables st1 1 = [] \<and> tables st1 0 = [(''k'', Some ''v'')]) \<and>
   GetSessionValue sampleStore (ClearRunCtx (RunCtxPtr (Some (rc [''a''])))) ''k'' = Inr (None, False) \<and>
   SetSessionValue sampleStore (ClearRunCtx (RunCtxPtr (Some (rc [''a''])))) ''k'' (Some ''w'') = Inr sampleStore"
proof -
  let ?ctx = "ClearRunCtx (RunCtxPtr (Some (rc [''a''])))"
  have h: "getRunCtx ?ctx = None" by (simp add: ClearRunCtx_def getRunCtx_def)
  have n: "nextMap sampleStore = 1" "tables sampleStore 0 = [(''k'', Some ''v'')]"
    by (simp_all add: sampleStore_def newRunSession_def makeMap_def emptyStore_def
          setValue_def mapAssign_def)
  from accessors_without_run_context[OF h, of sampleStore "''k''" "Some ''w''"] h n
  show ?thesis by auto
qed

section \<open>Proofs: \<open>BackToParentWrapper.Run\<close>\<close>









subsection \<open>Claim about \<open>BackToParentWrapper.Run\<close>\<close>




section \<open>Proofs: stream pipe\<close>

lemma pipe_inv_start: "pipe_inv vs (start n vs)"
  by (simp add: pipe_inv_def start_def Pipe_def)

lemma pipe_inv_producerTurn: "pipe_inv vs s \<Longrightarrow> pipe_inv vs (producerTurn s)"
  by (auto simp: pipe_inv_def producerTurn_def send_def closeWriter_def
           split: list.splits if_splits)

lemma pipe_inv_consumerTurn: "pipe_inv vs s \<Longrightarrow> pipe_inv vs (consumerTurn s)"
  by (auto simp: pipe_inv_def consumerTurn_def recv_def handOver_def
           split: list.splits if_splits)

lemma pipe_inv_turn: "pipe_inv vs s \<Longrightarrow> pipe_inv vs (turn a s)"
  by (cases a) (simp_all add: pipe_inv_producerTurn pipe_inv_consumerTurn)

lemma pipe_inv_runSchedule: "pipe_inv vs s \<Longrightarrow> pipe_inv vs (runSchedule sched s)"
  unfolding runSchedule_def
  by (induction sched arbitrary: s) (simp_all add: pipe_inv_turn)

lemma pipe_inv_got: "pipe_inv vs s \<Longrightarrow> prefix (got s) vs \<and> (sawEnd s \<longrightarrow> got s = vs)"
  by (auto simp: pipe_inv_def prefix_def)

lemma no_deadlock:
  assumes "pipe_inv vs s" "\<not> sawEnd s"
  shows "producerTurn s \<noteq> s \<or> consumerTurn s \<noteq> s"
proof (cases "toSend s")
  case Nil
  show ?thesis
  proof (cases "writerClosed (thePipe s)")
    case False
    then have "writerClosed (thePipe (producerTurn s)) \<noteq> writerClosed (thePipe s)"
      using Nil by (simp add: producerTurn_def closeWriter_def)
    then show ?thesis by auto
  next
    case True
    have "got (consumerTurn s) \<noteq> got s \<or> sawEnd (consumerTurn s) \<noteq> sawEnd s"
      using True assms(2) by (simp add: consumerTurn_def recv_def split: list.splits)
    then show ?thesis by auto
  qed
next
  case (Cons v rest)
  show ?thesis
  proof (cases "length (queue (thePipe s)) < capacity (thePipe s)")
    case True
    then have "toSend (producerTurn s) \<noteq> toSend s"
      using Cons by (simp add: producerTurn_def send_def)
    then show ?thesis by auto
  next
    case False
    from assms(1) Cons have nc: "\<not> writerClosed (thePipe s)" by (auto simp: pipe_inv_def)
    from False have "capacity (thePipe s) = 0 \<or> queue (thePipe s) \<noteq> []" by auto
    then have "got (consumerTurn s) \<noteq> got s"
      using Cons assms(2) nc
      by (auto simp: consumerTurn_def recv_def handOver_def split: list.splits)
    then show ?thesis by auto
  qed
qed

text \<open>One round of the alternating schedule, from a state with an empty queue.\<close>

lemma round_send:
  assumes "queue (thePipe s) = []" "\<not> writerClosed (thePipe s)" "\<not> sawEnd s" "toSend s = v # rest"
  shows "consumerTurn (producerTurn s) = s\<lparr>toSend := rest, got := got s @ [v]\<rparr>"
proof (cases "capacity (thePipe s) = 0")
  case True
  then have "producerTurn s = s" using assms by (simp add: producerTurn_def send_def)
  then show ?thesis using assms True
    by (simp add: consumerTurn_def recv_def handOver_def)
next
  case False
  then have "producerTurn s = s\<lparr>toSend := rest, thePipe := (thePipe s)\<lparr>queue := [v]\<rparr>\<rparr>"
    using assms by (simp add: producerTurn_def send_def)
  then show ?thesis using assms by (simp add: consumerTurn_def recv_def)
qed

lemma round_close:
  assumes "queue (thePipe s) = []" "\<not> sawEnd s" "toSend s = []"
  shows "consumerTurn (producerTurn s) = s\<lparr>thePipe := closeWriter (thePipe s), sawEnd := True\<rparr>"
  using assms by (simp add: producerTurn_def consumerTurn_def recv_def closeWriter_def)

lemma alternate_Suc: "alternate (Suc n) = Producer # Consumer # alternate n"
  by (simp add: alternate_def)

lemma alternate_all:
  assumes "queue (thePipe s) = []" "\<not> writerClosed (thePipe s)" "\<not> sawEnd s"
  shows "runSchedule (alternate (Suc (length (toSend s)))) s =
         s\<lparr>toSend := [], thePipe := closeWriter (thePipe s), got := got s @ toSend s, sawEnd := True\<rparr>"
  using assms
proof (induction "toSend s" arbitrary: s)
  case Nil
  then have t: "toSend s = []" by simp
  with Nil show ?case
    by (simp add: runSchedule_def alternate_def round_close)
next
  case (Cons v rest)
  let ?s1 = "s\<lparr>toSend := rest, got := got s @ [v]\<rparr>"
  from Cons.hyps(2) have t: "toSend s = v # rest" by simp
  have r: "consumerTurn (producerTurn s) = ?s1"
    using Cons.prems t by (rule round_send)
  have "runSchedule (alternate (Suc (length (toSend s)))) s =
        runSchedule (alternate (Suc (length rest))) ?s1"
    using t r by (simp add: runSchedule_def alternate_Suc)
  also have "\<dots> = ?s1\<lparr>toSend := [], thePipe := closeWriter (thePipe ?s1),
                      got := got ?s1 @ toSend ?s1, sawEnd := True\<rparr>"
    using Cons.hyps(1)[of ?s1] Cons.prems by simp
  finally show ?case using t by simp
qed

subsection \<open>Claim about the pipe\<close>

text \<open>
  C7. For every pipe (any capacity \<open>n\<close>) whose producer sends \<open>v1..vk\<close> and then closes
  the writer: however the turns of producer and consumer interleave, the chunks the
  consumer's successive \<open>recv\<close> calls have returned are a prefix of \<open>v1..vk\<close> (none
  dropped, duplicated or reordered), the end-of-stream sentinel is returned only after
  all of them, and until then the producer or the consumer can take a step; when they
  take turns for \<open>k + 1\<close> rounds the consumer has \<open>v1..vk\<close> and the sentinel.
\<close>

theorem pipe_delivers_in_order:
  "prefix (got (runSchedule sched (start n vs))) vs \<and>
   (sawEnd (runSchedule sched (start n vs)) \<longrightarrow> got (runSchedule sched (start n vs)) = vs) \<and>
   (\<not> sawEnd (runSchedule sched (start n vs)) \<longrightarrow>
      producerTurn (runSchedule sched (start n vs)) \<noteq> runSchedule sched (start n vs) \<or>
      consumerTurn (runSchedule sched (start n vs)) \<noteq> runSchedule sched (start n vs)) \<and>
   got (runSchedule (alternate (Suc (length vs))) (start n vs)) = vs \<and>
   sawEnd (runSchedule (alternate (Suc (length vs))) (start n vs))"
proof -
  have i: "pipe_inv vs (runSchedule sched (start n vs))"
    by (rule pipe_inv_runSchedule[OF pipe_inv_start])
  have "runSchedule (alternate (Suc (length (toSend (start n vs))))) (start n vs) =
          (start n vs)\<lparr>toSend := [], thePipe := closeWriter (thePipe (start n vs)),
                       got := got (start n vs) @ toSend (start n vs), sawEnd := True\<rparr>"
    by (rule alternate_all) (simp_all add: start_def Pipe_def)
  then have a: "got (runSchedule (alternate (Suc (length vs))) (start n vs)) = vs"
               "sawEnd (runSchedule (alternate (Suc (length vs))) (start n vs))"
    by (simp_all add: start_def)
  from pipe_inv_got[OF i] no_deadlock[OF i] a show ?thesis by blast
qed

text \<open>
  The theorem at the run of the repository's test: a pipe of capacity 2, two sends and
  the close, then three \<open>recv\<close> calls.
\<close>

theorem pipe_delivers_in_order_witness:
  "runSchedule [Producer, Producer, Producer, Consumer, Consumer, Consumer] (start 2 [''xxx'', ''lee'']) =
     \<lparr>toSend = [], thePipe = \<lparr>queue = [], capacity = 2, writerClosed = True\<rparr>,
      got = [''xxx'', ''lee''], sawEnd = True\<rparr> \<and>
   prefix (got (runSchedule [Producer, Producer, Consumer] (start 2 [''xxx'', ''lee'']))) [''xxx'', ''lee''] \<and>
   got (runSchedule (alternate 3) (start 2 [''xxx'', ''lee''])) = [''xxx'', ''lee'']"
proof -
  have 1: "runSchedule [Producer, Producer, Producer, Consumer, Consumer, Consumer] (start 2 [''xxx'', ''lee'']) =
     \<lparr>toSend = [], thePipe = \<lparr>queue = [], capacity = 2, writerClosed = True\<rparr>,
      got = [''xxx'', ''lee''], sawEnd = True\<rparr>"
    by (simp add: runSchedule_def start_def Pipe_def producerTurn_def consumerTurn_def
          send_def recv_def closeWriter_def)
  from pipe_delivers_in_order[of "[Producer, Producer, Consumer]" 2 "[''xxx'', ''lee'']"]
  have 2: "prefix (got (runSchedule [Producer, Producer, Consumer] (start 2 [''xxx'', ''lee''])))
             [''xxx'', ''lee'']"
    and 3: "got (runSchedule (alternate (Suc (length [''xxx'', ''lee'']))) (start 2 [''xxx'', ''lee''])) =
             [''xxx'', ''lee'']"
    by blast+
  from 1 2 3 show ?thesis by (simp add: eval_nat_numeral)
qed

section \<open>Proofs: ReAct agent\<close>

lemma collect_Inr [simp]: "collect (map Inr rs) = Inr rs"
  by (induction rs) simp_all

lemma dispatch_invoked:
  "dispatch cfg calls (s, invoked) = (results, (s', invoked')) \<Longrightarrow>
   invoked' = invoked @ calls \<and> length results = length calls"
proof (induction calls arbitrary: s invoked results)
  case Nil
  then show ?case by simp
next
  case (Cons call calls)
  obtain r s1 where r: "runTool cfg call s = (r, s1)" by (cases "runTool cfg call s")
  obtain rs final where d: "dispatch cfg calls (s1, invoked @ [call]) = (rs, final)"
    by (cases "dispatch cfg calls (s1, invoked @ [call])")
  from Cons.prems r d have e: "results = r # rs" "final = (s', invoked')" by simp_all
  from Cons.IH[of s1 "invoked @ [call]" rs] d e show ?case by simp
qed

lemma runTool_output:
  "runTool cfg call s = (Inr r, s') \<Longrightarrow>
   \<exists>f. Tools cfg (Name call) = Some f \<and> f (Arguments call) s = (Inr (Content r), s') \<and>
       ToolCallID r = ID call"
  by (auto simp: runTool_def split: option.splits sum.splits prod.splits)

lemma directResponse_None:
  assumes "\<forall>call\<in>set calls. Name call \<notin> ToolReturnDirectly cfg"
  shows "directResponse cfg calls rs = None"
proof -
  have "\<not> (\<exists>x\<in>set (zip calls rs). case x of (call, r) \<Rightarrow> Name call \<in> ToolReturnDirectly cfg)"
    using assms by (auto dest: set_zip_leftD)
  then show ?thesis by (auto simp: directResponse_def find_None_iff)
qed

text \<open>
  When every call of the batch returns, the direct response is the response of the first
  call that invokes a return-directly tool: the output of that tool on that call's
  arguments.
\<close>

lemma directResponse_first:
  assumes "dispatch cfg calls (s, invoked) = (map Inr rs, final)"
      and "find (\<lambda>call. Name call \<in> ToolReturnDirectly cfg) calls = Some c"
  shows "\<exists>r f s1 s2. directResponse cfg calls rs = Some r \<and> r \<in> set rs \<and>
           Tools cfg (Name c) = Some f \<and> f (Arguments c) s1 = (Inr (Content r), s2) \<and>
           ToolCallID r = ID c"
  using assms
proof (induction calls arbitrary: s invoked rs)
  case Nil
  then show ?case by simp
next
  case (Cons call calls)
  obtain r0 s1 where r: "runTool cfg call s = (r0, s1)" by (cases "runTool cfg call s")
  obtain rs0 fin where d: "dispatch cfg calls (s1, invoked @ [call]) = (rs0, fin)"
    by (cases "dispatch cfg calls (s1, invoked @ [call])")
  from Cons.prems(1) r d have e: "map Inr rs = r0 # rs0" "fin = final" by simp_all
  then obtain m ms where ms: "rs = m # ms" "r0 = Inr m" "rs0 = map Inr ms" by (cases rs) auto
  show ?case
  proof (cases "Name call \<in> ToolReturnDirectly cfg")
    case True
    with Cons.prems(2) have c: "c = call" by simp
    from runTool_output[of cfg call s m s1] r ms obtain f where
      "Tools cfg (Name call) = Some f" "f (Arguments call) s = (Inr (Content m), s1)"
      "ToolCallID m = ID call" by auto
    with True c ms show ?thesis by (auto simp: directResponse_def)
  next
    case False
    with Cons.prems(2) have f: "find (\<lambda>call. Name call \<in> ToolReturnDirectly cfg) calls = Some c"
      by simp
    from d ms e have "dispatch cfg calls (s1, invoked @ [call]) = (map Inr ms, final)" by simp
    from Cons.IH[OF this f] obtain r f' t1 t2 where
      "directResponse cfg calls ms = Some r" "r \<in> set ms" "Tools cfg (Name c) = Some f'"
      "f' (Arguments c) t1 = (Inr (Content r), t2)" "ToolCallID r = ID c"
      by blast
    with False ms show ?thesis by (auto simp: directResponse_def)
  qed
qed

text \<open>One turn of the loop that does not end the run: model, then tools.\<close>

lemma loop_turn:
  assumes "Model cfg (modelCalls ex) (MessageModifier cfg (messages ex)) = Inr m"
      and "ToolCalls m \<noteq> []"
      and "dispatch cfg (ToolCalls m) (toolState ex, toolCalls ex) = (map Inr rs, (s, invoked))"
      and "\<forall>call\<in>set (ToolCalls m). Name call \<notin> ToolReturnDirectly cfg"
  shows "steps cfg (Suc (Suc k)) ModelNode ex =
         steps cfg k ModelNode
           \<lparr>messages = messages ex @ [m] @ rs, modelCalls = Suc (modelCalls ex),
            toolCalls = toolCalls ex @ ToolCalls m, toolState = s\<rparr>"
proof -
  from dispatch_invoked[OF assms(3)] have i: "invoked = toolCalls ex @ ToolCalls m" by simp
  from assms i show ?thesis by (simp add: directResponse_None)
qed

lemma last_turn:
  assumes "Model cfg (modelCalls ex) (MessageModifier cfg (messages ex)) = Inr m"
      and "ToolCalls m = []"
  shows "steps cfg (Suc k) ModelNode ex =
         Inr (m, \<lparr>messages = messages ex @ [m], modelCalls = Suc (modelCalls ex),
                  toolCalls = toolCalls ex, toolState = toolState ex\<rparr>)"
  using assms by simp

lemma direct_turn:
  assumes "Model cfg (modelCalls ex) (MessageModifier cfg (messages ex)) = Inr m"
      and "dispatch cfg (ToolCalls m) (toolState ex, toolCalls ex) = (map Inr rs, (s, invoked))"
      and "find (\<lambda>call. Name call \<in> ToolReturnDirectly cfg) (ToolCalls m) = Some c"
  shows "\<exists>r f s1 s2.
           steps cfg (Suc (Suc k)) ModelNode ex =
             Inr (r, \<lparr>messages = messages ex @ [m], modelCalls = Suc (modelCalls ex),
                      toolCalls = toolCalls ex @ ToolCalls m, toolState = s\<rparr>) \<and>
           r \<in> set rs \<and> Tools cfg (Name c) = Some f \<and>
           f (Arguments c) s1 = (Inr (Content r), s2) \<and> ToolCallID r = ID c"
proof -
  from assms(3) have ne: "ToolCalls m \<noteq> []" by auto
  from dispatch_invoked[OF assms(2)] have i: "invoked = toolCalls ex @ ToolCalls m" by simp
  from directResponse_first[OF assms(2,3)] obtain r f s1 s2 where
    r: "directResponse cfg (ToolCalls m) rs = Some r" "r \<in> set rs" "Tools cfg (Name c) = Some f"
       "f (Arguments c) s1 = (Inr (Content r), s2)" "ToolCallID r = ID c"
    by blast
  have "steps cfg (Suc (Suc k)) ModelNode ex =
          Inr (r, \<lparr>messages = messages ex @ [m], modelCalls = Suc (modelCalls ex),
                   toolCalls = toolCalls ex @ ToolCalls m, toolState = s\<rparr>)"
    using assms(1,2) ne i r(1) by simp
  with r show ?thesis by blast
qed

subsection \<open>Claims about the ReAct agent\<close>

text \<open>
  C8, as amended. For every ReAct agent, when a model step emits a batch of tool calls
  of which one, \<open>c\<close>, invokes a tool of the return-directly set and no call before
  \<open>c\<close> in the batch invokes such a tool, and the tools node completes (every call of
  the batch returns), then, given the two super-steps of budget, the run ends right
  after the tools node with the output of \<open>c\<close>'s tool on \<open>c\<close>'s arguments as the
  final message. Every call of the batch was invoked (the log holds them all and the
  tools' state is the one after the whole batch), the other responses are neither the
  output nor in the message list, and the model was invoked this once and not again.
\<close>

theorem return_directly_in_batch:
  assumes "Model cfg (modelCalls ex) (MessageModifier cfg (messages ex)) = Inr m"
      and "dispatch cfg (ToolCalls m) (toolState ex, toolCalls ex) = (map Inr rs, (s, invoked))"
      and "find (\<lambda>call. Name call \<in> ToolReturnDirectly cfg) (ToolCalls m) = Some c"
  shows "\<exists>r f s1 s2.
           steps cfg (Suc (Suc k)) ModelNode ex =
             Inr (r, \<lparr>messages = messages ex @ [m], modelCalls = Suc (modelCalls ex),
                      toolCalls = toolCalls ex @ ToolCalls m, toolState = s\<rparr>) \<and>
           r \<in> set rs \<and> Tools cfg (Name c) = Some f \<and>
           f (Arguments c) s1 = (Inr (Content r), s2) \<and> ToolCallID r = ID c"
  using assms by (rule direct_turn)

text \<open>
  The theorem at the scenario of the spec: the first model step asks for \<open>greet\<close> and
  \<open>greet in stream\<close> in one batch, and \<open>greet in stream\<close> returns directly. The run
  ends with the output of \<open>greet in stream\<close>, after one model invocation; both tools
  were invoked (both counters are 1).
\<close>

theorem return_directly_in_batch_witness:
  "Generate parallelAgent userInput (0, 0) =
     Inr (toolMessage ''stream hello bob'' streamCall,
          \<lparr>messages = userInput @ [assistant ''hello max'' [greetCall, streamCall]],
           modelCalls = 1, toolCalls = [greetCall, streamCall], toolState = (1, 1)\<rparr>) \<and>
   (\<exists>r f s1 s2.
      steps parallelAgent (Suc (Suc 38)) ModelNode
          \<lparr>messages = userInput, modelCalls = 0, toolCalls = [], toolState = (0, 0)\<rparr> =
        Inr (r, \<lparr>messages = userInput @ [assistant ''hello max'' [greetCall, streamCall]],
                 modelCalls = 1, toolCalls = [greetCall, streamCall], toolState = (1, 1)\<rparr>) \<and>
      Tools parallelAgent ''greet in stream'' = Some f \<and>
      f ''bob'' s1 = (Inr (Content r), s2) \<and> ToolCallID r = ''call_2'')"
proof -
  let ?ex = "\<lparr>messages = userInput, modelCalls = 0, toolCalls = [], toolState = (0::nat, 0::nat)\<rparr>"
  let ?m = "assistant ''hello max'' [greetCall, streamCall]"
  have a: "Model parallelAgent (modelCalls ?ex) (MessageModifier parallelAgent (messages ?ex)) = Inr ?m"
    by (simp add: parallelAgent_def parallelModel_def)
  have b: "dispatch parallelAgent (ToolCalls ?m) (toolState ?ex, toolCalls ?ex) =
             (map Inr [toolMessage ''hello max'' greetCall, toolMessage ''stream hello bob'' streamCall],
              ((1, 1), [greetCall, streamCall]))"
    by (simp add: assistant_def toolMessage_def runTool_def parallelAgent_def greetTools_def
          greetCall_def streamCall_def)
  have c: "find (\<lambda>call. Name call \<in> ToolReturnDirectly parallelAgent) (ToolCalls ?m) = Some streamCall"
    by (simp add: assistant_def parallelAgent_def greetCall_def streamCall_def)
  from return_directly_in_batch[OF a b c, of 38] obtain r f s1 s2 where
    h: "steps parallelAgent (Suc (Suc 38)) ModelNode ?ex =
       Inr (r, \<lparr>messages = messages ?ex @ [?m], modelCalls = Suc (modelCalls ?ex),
                toolCalls = toolCalls ?ex @ ToolCalls ?m, toolState = (1, 1)\<rparr>)"
    "Tools parallelAgent (Name streamCall) = Some f"
    "f (Arguments streamCall) s1 = (Inr (Content r), s2)" "ToolCallID r = ID streamCall"
    by blast
  have "steps parallelAgent (Suc (Suc 38)) ModelNode ?ex =
        Inr (r, \<lparr>messages = userInput @ [?m], modelCalls = 1,
                 toolCalls = [greetCall, streamCall], toolState = (1, 1)\<rparr>) \<and>
      Tools parallelAgent ''greet in stream'' = Some f \<and>
      f ''bob'' s1 = (Inr (Content r), s2) \<and> ToolCallID r = ''call_2''"
    using h by (simp add: streamCall_def assistant_def)
  then have e: "\<exists>r f s1 s2.
      steps parallelAgent (Suc (Suc 38)) ModelNode ?ex =
        Inr (r, \<lparr>messages = userInput @ [?m], modelCalls = 1,
                 toolCalls = [greetCall, streamCall], toolState = (1, 1)\<rparr>) \<and>
      Tools parallelAgent ''greet in stream'' = Some f \<and>
      f ''bob'' s1 = (Inr (Content r), s2) \<and> ToolCallID r = ''call_2''"
    by blast
  have d: "Generate parallelAgent userInput (0, 0) =
     Inr (toolMessage ''stream hello bob'' streamCall,
          \<lparr>messages = userInput @ [?m], modelCalls = 1, toolCalls = [greetCall, streamCall],
           toolState = (1, 1)\<rparr>)"
    by (simp add: Generate_def eval_nat_numeral parallelAgent_def parallelModel_def assistant_def
          toolMessage_def runTool_def greetTools_def greetCall_def streamCall_def directResponse_def)
  from d e show ?thesis by (rule conjI)
qed

text \<open>
  C8 as stated fails where an earlier call of the batch also invokes a return-directly
  tool: with both \<open>greet\<close> and \<open>greet in stream\<close> in the return-directly set and the
  batch \<open>greet\<close>, \<open>greet in stream\<close>, one call of the batch invokes the
  return-directly tool \<open>greet in stream\<close>, but the final message is the output of
  \<open>greet\<close>.
\<close>

theorem return_directly_first_wins_counterexample:
  "''greet in stream'' \<in> ToolReturnDirectly bothDirectAgent \<and>
   Model bothDirectAgent 0 userInput = Inr (assistant ''hello max'' [greetCall, streamCall]) \<and>
   Name streamCall = ''greet in stream'' \<and>
   Generate bothDirectAgent userInput (0, 0) =
     Inr (toolMessage ''hello max'' greetCall,
          \<lparr>messages = userInput @ [assistant ''hello max'' [greetCall, streamCall]],
           modelCalls = 1, toolCalls = [greetCall, streamCall], toolState = (1, 1)\<rparr>) \<and>
   Content (toolMessage ''hello max'' greetCall) = ''hello max'' \<and>
   ToolName (toolMessage ''hello max'' greetCall) = ''greet''"
  by (simp add: Generate_def eval_nat_numeral bothDirectAgent_def parallelModel_def assistant_def
        toolMessage_def runTool_def greetTools_def greetCall_def streamCall_def directResponse_def)

text \<open>
  C9, as amended. For every ReAct agent whose chat model returns a message carrying tool
  calls on its first two invocations and a message with content \<open>bye\<close> and no tool
  calls on its third, whose tool calls all return, none of them to a tool of the
  return-directly set, and whose max-step bound is at least the five node firings of the
  run (model, tools, model, tools, model): \<open>Generate\<close> returns the third message, the
  model was invoked three times, and the tool calls invoked are those of the two
  messages, in order (two invocations when each message carries one call). The chat
  model is taken at the message lists the run gives it.
\<close>

theorem two_tool_loops_then_bye:
  assumes "Model cfg 0 (MessageModifier cfg input) = Inr m1" and "ToolCalls m1 \<noteq> []"
      and "dispatch cfg (ToolCalls m1) (s0, []) = (map Inr rs1, (s1, invoked1))"
      and "Model cfg 1 (MessageModifier cfg (input @ [m1] @ rs1)) = Inr m2" and "ToolCalls m2 \<noteq> []"
      and "dispatch cfg (ToolCalls m2) (s1, invoked1) = (map Inr rs2, (s2, invoked2))"
      and "Model cfg 2 (MessageModifier cfg (input @ [m1] @ rs1 @ [m2] @ rs2)) = Inr m3"
      and "ToolCalls m3 = []" and "Content m3 = ''bye''"
      and "\<forall>call\<in>set (ToolCalls m1 @ ToolCalls m2). Name call \<notin> ToolReturnDirectly cfg"
      and "5 \<le> MaxStep cfg"
  shows "Generate cfg input s0 =
           Inr (m3, \<lparr>messages = input @ [m1] @ rs1 @ [m2] @ rs2 @ [m3], modelCalls = 3,
                     toolCalls = ToolCalls m1 @ ToolCalls m2, toolState = s2\<rparr>) \<and>
         Content m3 = ''bye'' \<and>
         (ToolCalls m1 = [c1] \<and> ToolCalls m2 = [c2] \<longrightarrow>
            length (ToolCalls m1 @ ToolCalls m2) = 2)"
proof -
  from assms(11) obtain j where "MaxStep cfg = 5 + j" by (auto simp: le_iff_add)
  then have k: "MaxStep cfg = Suc (Suc (Suc (Suc (Suc j))))" by simp
  let ?ex0 = "\<lparr>messages = input, modelCalls = 0, toolCalls = [], toolState = s0\<rparr>"
  let ?ex1 = "\<lparr>messages = input @ [m1] @ rs1, modelCalls = Suc 0, toolCalls = ToolCalls m1,
               toolState = s1\<rparr>"
  let ?ex2 = "\<lparr>messages = (input @ [m1] @ rs1) @ [m2] @ rs2, modelCalls = Suc (Suc 0),
               toolCalls = ToolCalls m1 @ ToolCalls m2, toolState = s2\<rparr>"
  let ?ex3 = "\<lparr>messages = ((input @ [m1] @ rs1) @ [m2] @ rs2) @ [m3], modelCalls = Suc (Suc (Suc 0)),
               toolCalls = ToolCalls m1 @ ToolCalls m2, toolState = s2\<rparr>"
  have n1: "\<forall>call\<in>set (ToolCalls m1). Name call \<notin> ToolReturnDirectly cfg"
    and n2: "\<forall>call\<in>set (ToolCalls m2). Name call \<notin> ToolReturnDirectly cfg"
    using assms(10) by auto
  from dispatch_invoked[OF assms(3)] have i1: "invoked1 = ToolCalls m1" by simp
  have a1: "Model cfg (modelCalls ?ex0) (MessageModifier cfg (messages ?ex0)) = Inr m1"
    using assms(1) by simp
  have d1: "dispatch cfg (ToolCalls m1) (toolState ?ex0, toolCalls ?ex0) = (map Inr rs1, (s1, invoked1))"
    using assms(3) by simp
  have a2: "Model cfg (modelCalls ?ex1) (MessageModifier cfg (messages ?ex1)) = Inr m2"
    using assms(4) by simp
  have d2: "dispatch cfg (ToolCalls m2) (toolState ?ex1, toolCalls ?ex1) = (map Inr rs2, (s2, invoked2))"
    using assms(6) i1 by simp
  have a3: "Model cfg (modelCalls ?ex2) (MessageModifier cfg (messages ?ex2)) = Inr m3"
    using assms(7) by (simp add: eval_nat_numeral)
  have t1: "steps cfg (Suc (Suc (Suc (Suc (Suc j))))) ModelNode ?ex0 =
            steps cfg (Suc (Suc (Suc j))) ModelNode ?ex1"
    using loop_turn[OF a1 assms(2) d1 n1, of "Suc (Suc (Suc j))"] by simp
  have t2: "steps cfg (Suc (Suc (Suc j))) ModelNode ?ex1 = steps cfg (Suc j) ModelNode ?ex2"
    using loop_turn[OF a2 assms(5) d2 n2, of "Suc j"] by simp
  have t3: "steps cfg (Suc j) ModelNode ?ex2 = Inr (m3, ?ex3)"
    using last_turn[OF a3 assms(8), of j] by simp
  have "Generate cfg input s0 = Inr (m3, ?ex3)"
    using t1 t2 t3 k by (simp add: Generate_def)
  then show ?thesis using assms(9) by simp
qed

text \<open>
  The theorem at an agent after the repository's tests, with tool \<open>greet\<close>, no
  return-directly set, max-step 10 and a chat model that looks at its input (it fails
  unless the list has the user message and one assistant and one tool message per
  earlier invocation).
\<close>

theorem two_tool_loops_then_bye_witness:
  "5 \<le> MaxStep plainAgent \<and>
   Generate plainAgent userInput (0, 0) =
     Inr (assistant ''bye'' [],
          \<lparr>messages = userInput @ [assistant ''hello max'' [greetCall]] @ [toolMessage ''hello max'' greetCall]
              @ [assistant ''hello max'' [greetCall]] @ [toolMessage ''hello max'' greetCall]
              @ [assistant ''bye'' []],
           modelCalls = 3, toolCalls = ToolCalls (assistant ''hello max'' [greetCall]) @
                                       ToolCalls (assistant ''hello max'' [greetCall]),
           toolState = (2, 0)\<rparr>)"
proof -
  let ?m = "assistant ''hello max'' [greetCall]"
  let ?r = "[toolMessage ''hello max'' greetCall]"
  have m: "Model plainAgent 0 (MessageModifier plainAgent userInput) = Inr ?m"
    "Model plainAgent 1 (MessageModifier plainAgent (userInput @ [?m] @ ?r)) = Inr ?m"
    "Model plainAgent 2 (MessageModifier plainAgent (userInput @ [?m] @ ?r @ [?m] @ ?r)) =
       Inr (assistant ''bye'' [])"
    by (simp_all add: plainAgent_def pickyModel_def userInput_def)
  have c: "ToolCalls ?m \<noteq> []" "ToolCalls (assistant ''bye'' []) = []"
    "Content (assistant ''bye'' []) = ''bye''"
    by (simp_all add: assistant_def)
  have t: "dispatch plainAgent (ToolCalls ?m) ((0, 0), []) = (map Inr ?r, ((1, 0), [greetCall]))"
    "dispatch plainAgent (ToolCalls ?m) ((1, 0), [greetCall]) = (map Inr ?r, ((2, 0), [greetCall, greetCall]))"
    by (simp_all add: assistant_def toolMessage_def runTool_def plainAgent_def greetTools_def
          greetCall_def)
  have d: "\<forall>call\<in>set (ToolCalls ?m @ ToolCalls ?m). Name call \<notin> ToolReturnDirectly plainAgent"
    by (simp add: plainAgent_def)
  have s: "5 \<le> MaxStep plainAgent" by (simp add: plainAgent_def)
  from two_tool_loops_then_bye[OF m(1) c(1) t(1) m(2) c(1) t(2) m(3) c(2) c(3) d s]
  have "Generate plainAgent userInput (0, 0) =
     Inr (assistant ''bye'' [],
          \<lparr>messages = userInput @ [?m] @ ?r @ [?m] @ ?r @ [assistant ''bye'' []],
           modelCalls = 3, toolCalls = ToolCalls ?m @ ToolCalls ?m, toolState = (2, 0)\<rparr>)"
    by blast
  with s show ?thesis by simp
qed

text \<open>
  C9 as stated fails for three agents that all have the chat model of the claim (tool
  calls on the first two invocations, \<open>bye\<close> on the third). With the tool \<open>greet\<close>
  in the return-directly set, as the repository's first test configures it, \<open>Generate\<close>
  returns the tool's output after one model invocation and one tool call. With a tool
  that returns an error, \<open>Generate\<close> fails with that error. With a max-step bound of 1,
  \<open>Generate\<close> fails with the step limit.
\<close>

theorem two_tool_loops_counterexample:
  "Model directAgent 0 userInput = Inr (assistant ''hello max'' [greetCall]) \<and>
   Model directAgent 1 userInput = Inr (assistant ''hello max'' [greetCall]) \<and>
   Model directAgent 2 userInput = Inr (assistant ''bye'' []) \<and>
   Generate directAgent userInput (0, 0) =
     Inr (toolMessage ''hello max'' greetCall,
          \<lparr>messages = userInput @ [assistant ''hello max'' [greetCall]],
           modelCalls = 1, toolCalls = [greetCall], toolState = (1, 0)\<rparr>) \<and>
   Model failingAgent = Model directAgent \<and>
   Generate failingAgent userInput (0, 0) = Inl (ToolError ''boom'') \<and>
   Model oneStepAgent = Model directAgent \<and>
   Generate oneStepAgent userInput (0, 0) = Inl StepLimitExceeded"
  by (simp add: Generate_def eval_nat_numeral directAgent_def failingAgent_def oneStepAgent_def
        greetModel_def assistant_def toolMessage_def runTool_def greetTools_def failingTools_def
        greetCall_def directResponse_def)


end
